theory Spec2Isabelle
  imports Main
begin

section \<open>The prime sieve of user/primes.c\<close>

text \<open>
  The program is a chain of processes connected by pipes.  It is embedded in two layers.
  The first layer is the C code of \<^verbatim>\<open>main\<close> and \<^verbatim>\<open>deliver_prime\<close>: a control point
  for every system call of the source, the local variables of the running frame, the
  system call issued at each control point (\<open>call\<close>) and the continuation after its return
  (\<open>resume\<close>).  The second layer is the part of the kernel the program talks to: file
  descriptor tables, pipes, fork, wait and exit, as an interleaving step function on a
  global state.

  C \<^verbatim>\<open>int\<close> values are modelled by \<open>int\<close>.  All values the program computes lie between
  \<open>-1\<close> and \<open>MAX_PRIMES + 1\<close>, so no operation wraps as long as \<open>MAX_PRIMES\<close> is below
  \<open>2^31 - 1\<close> (the source has 35); the remainder is only ever compared with 0, where C's
  truncating \<^verbatim>\<open>%\<close> and \<open>mod\<close> agree.
\<close>

subsection \<open>Constants (lines 40-46)\<close>

definition START_PRIME :: int where "START_PRIME = 2"

definition PIPE_INVALID :: int where "PIPE_INVALID = - 1"

text \<open>A two-element descriptor array is a pair; \<^verbatim>\<open>PIPE_READ\<close> = 0 selects the first
  component and \<^verbatim>\<open>PIPE_WRITE\<close> = 1 the second.\<close>

definition PIPE_READ :: "int \<times> int \<Rightarrow> int" where "PIPE_READ a = fst a"

definition PIPE_WRITE :: "int \<times> int \<Rightarrow> int" where "PIPE_WRITE a = snd a"

subsection \<open>Console lines and system calls\<close>

text \<open>The three \<^verbatim>\<open>printf\<close> formats of the source, each with its \<^verbatim>\<open>%d\<close> argument:
  \<^verbatim>\<open>"prime %d\n"\<close>, \<^verbatim>\<open>"pipe error, current index: %d\n"\<close> and
  \<^verbatim>\<open>"fork error, current index: %d\n"\<close>.\<close>

datatype line = Prime_line int | Pipe_error int | Fork_error int

datatype syscall =
    Sys_none
  | Sys_printf line
  | Sys_pipe
  | Sys_fork
  | Sys_read int
  | Sys_write int int
  | Sys_close int
  | Sys_wait
  | Sys_exit int

subsection \<open>Control points and local variables\<close>

text \<open>One control point per system call site, named by its source line.\<close>

datatype pc =
    L136_print    \<comment> \<open>main: \<^verbatim>\<open>print_prime(START_PRIME)\<close>\<close>
  | L139_for      \<comment> \<open>main: loop test \<^verbatim>\<open>i <= MAX_PRIMES\<close> and the test \<^verbatim>\<open>i % START_PRIME\<close>\<close>
  | L150_close    \<comment> \<open>main: \<^verbatim>\<open>close(p[PIPE_READ])\<close>\<close>
  | L151_close    \<comment> \<open>main: \<^verbatim>\<open>close(p[PIPE_WRITE])\<close>\<close>
  | L154_wait     \<comment> \<open>main: \<^verbatim>\<open>wait(0)\<close>\<close>
  | L156_return   \<comment> \<open>main: \<^verbatim>\<open>return 0\<close>\<close>
  | L71_test      \<comment> \<open>deliver_prime: test of the write slot, then \<^verbatim>\<open>pipe\<close> (72) or \<^verbatim>\<open>write\<close> (119)\<close>
  | L74_printf    \<comment> \<open>deliver_prime: pipe error message\<close>
  | L78_fork      \<comment> \<open>deliver_prime: \<^verbatim>\<open>fork()\<close>\<close>
  | L113_printf   \<comment> \<open>deliver_prime: fork error message\<close>
  | L_exit1       \<comment> \<open>deliver_prime: \<^verbatim>\<open>exit(1)\<close> of lines 75, 114 and 120\<close>
  | L81_close     \<comment> \<open>child: \<^verbatim>\<open>close_pipe_if_valid(pipe_left[PIPE_WRITE])\<close>\<close>
  | L84_print     \<comment> \<open>child: \<^verbatim>\<open>print_prime(n)\<close>, then the initialisers of lines 87-88\<close>
  | L91_read      \<comment> \<open>child: \<^verbatim>\<open>read(pipe_left[PIPE_READ], ...)\<close> and the test of line 94\<close>
  | L103_close    \<comment> \<open>child: \<^verbatim>\<open>close_pipe_if_valid(pipe_left[PIPE_READ])\<close>\<close>
  | L104_close    \<comment> \<open>child: \<^verbatim>\<open>close_pipe_if_valid(pipe_right[PIPE_READ])\<close>\<close>
  | L105_close    \<comment> \<open>child: \<^verbatim>\<open>close_pipe_if_valid(pipe_right[PIPE_WRITE])\<close>\<close>
  | L108_wait     \<comment> \<open>child: \<^verbatim>\<open>wait(0)\<close>\<close>
  | L109_exit     \<comment> \<open>child: \<^verbatim>\<open>exit(0)\<close>\<close>

text \<open>
  A process is either the Driver, running \<^verbatim>\<open>main\<close>, or a Stage, running the child branch
  of the call of \<^verbatim>\<open>deliver_prime\<close> in which it was forked.  Either way it owns one cursor
  (\<^verbatim>\<open>p\<close> in \<^verbatim>\<open>main\<close>, \<^verbatim>\<open>pipe_right\<close> in a Stage) and one current value (\<^verbatim>\<open>i\<close> in \<^verbatim>\<open>main\<close>,
  \<^verbatim>\<open>received_number\<close> in a Stage); these two are the arguments of every call of
  \<^verbatim>\<open>deliver_prime\<close> it makes.  A Stage has in addition the parameters \<^verbatim>\<open>n\<close> and
  \<^verbatim>\<open>pipe_left\<close> of the frame it was forked in.
\<close>

datatype role = Driver | Stage

record locals =
  pc :: pc
  role :: role
  n :: int               \<comment> \<open>Stage: parameter \<^verbatim>\<open>n\<close>, its prime\<close>
  pipe_left :: "int \<times> int"   \<comment> \<open>Stage: parameter \<^verbatim>\<open>pipe_left\<close>\<close>
  val :: int             \<comment> \<open>\<^verbatim>\<open>i\<close> or \<^verbatim>\<open>received_number\<close>\<close>
  cursor :: "int \<times> int"      \<comment> \<open>\<^verbatim>\<open>p\<close> or \<^verbatim>\<open>pipe_right\<close>\<close>

subsection \<open>The code\<close>

definition print_prime :: "int \<Rightarrow> syscall" where
  "print_prime k = Sys_printf (Prime_line k)"

definition close_pipe_if_valid :: "int \<Rightarrow> syscall" where
  "close_pipe_if_valid p = (if p \<noteq> PIPE_INVALID then Sys_close p else Sys_none)"

text \<open>The system call issued at each control point.\<close>

definition call :: "'a locals_scheme \<Rightarrow> syscall" where
  "call l = (case pc l of
      L136_print \<Rightarrow> print_prime START_PRIME
    | L139_for \<Rightarrow> Sys_none
    | L150_close \<Rightarrow> Sys_close (PIPE_READ (cursor l))
    | L151_close \<Rightarrow> Sys_close (PIPE_WRITE (cursor l))
    | L154_wait \<Rightarrow> Sys_wait
    | L156_return \<Rightarrow> Sys_exit 0
    | L71_test \<Rightarrow>
        if PIPE_WRITE (cursor l) = PIPE_INVALID then Sys_pipe
        else Sys_write (PIPE_WRITE (cursor l)) (val l)
    | L74_printf \<Rightarrow> Sys_printf (Pipe_error (val l))
    | L78_fork \<Rightarrow> Sys_fork
    | L113_printf \<Rightarrow> Sys_printf (Fork_error (val l))
    | L_exit1 \<Rightarrow> Sys_exit 1
    | L81_close \<Rightarrow> close_pipe_if_valid (PIPE_WRITE (pipe_left l))
    | L84_print \<Rightarrow> print_prime (n l)
    | L91_read \<Rightarrow> Sys_read (PIPE_READ (pipe_left l))
    | L103_close \<Rightarrow> close_pipe_if_valid (PIPE_READ (pipe_left l))
    | L104_close \<Rightarrow> close_pipe_if_valid (PIPE_READ (cursor l))
    | L105_close \<Rightarrow> close_pipe_if_valid (PIPE_WRITE (cursor l))
    | L108_wait \<Rightarrow> Sys_wait
    | L109_exit \<Rightarrow> Sys_exit 0)"

text \<open>Where \<^verbatim>\<open>deliver_prime\<close> returns to: the increment of the \<^verbatim>\<open>for\<close> loop of \<^verbatim>\<open>main\<close>,
  or the \<^verbatim>\<open>while\<close> loop of the Stage.\<close>

definition deliver_return :: "'a locals_scheme \<Rightarrow> 'a locals_scheme" where
  "deliver_return l = (case role l of
      Driver \<Rightarrow> l\<lparr>val := val l + 1, pc := L139_for\<rparr>
    | Stage \<Rightarrow> l\<lparr>pc := L91_read\<rparr>)"

text \<open>
  The continuation after the system call of the current control point returned \<open>rv\<close>
  with out-parameter \<open>d\<close> (the two descriptors of \<^verbatim>\<open>pipe\<close>, the number read by
  \<^verbatim>\<open>read\<close>).  \<open>N\<close> is \<^verbatim>\<open>MAX_PRIMES\<close>.  In the child branch of \<^verbatim>\<open>fork\<close> the frame of
  \<^verbatim>\<open>deliver_prime\<close> becomes the Stage: its \<^verbatim>\<open>n\<close> is the value delivered and its
  \<^verbatim>\<open>pipe_left\<close> is the caller's cursor.
\<close>

definition resume :: "int \<Rightarrow> 'a locals_scheme \<Rightarrow> int \<Rightarrow> int \<times> int \<Rightarrow> 'a locals_scheme" where
  "resume N l rv d = (case pc l of
      L136_print \<Rightarrow> l\<lparr>val := START_PRIME + 1, pc := L139_for\<rparr>
    | L139_for \<Rightarrow>
        if val l \<le> N then
          (if val l mod START_PRIME = 0 then l\<lparr>val := val l + 1\<rparr> else l\<lparr>pc := L71_test\<rparr>)
        else l\<lparr>pc := L150_close\<rparr>
    | L150_close \<Rightarrow> l\<lparr>pc := L151_close\<rparr>
    | L151_close \<Rightarrow> l\<lparr>pc := L154_wait\<rparr>
    | L154_wait \<Rightarrow> l\<lparr>pc := L156_return\<rparr>
    | L156_return \<Rightarrow> l
    | L71_test \<Rightarrow>
        if PIPE_WRITE (cursor l) = PIPE_INVALID then
          (if rv < 0 then l\<lparr>pc := L74_printf\<rparr> else l\<lparr>cursor := d, pc := L78_fork\<rparr>)
        else
          (if rv \<le> 0 then l\<lparr>pc := L_exit1\<rparr> else deliver_return l)
    | L74_printf \<Rightarrow> l\<lparr>pc := L_exit1\<rparr>
    | L78_fork \<Rightarrow>
        if rv = 0 then l\<lparr>role := Stage, n := val l, pipe_left := cursor l, pc := L81_close\<rparr>
        else if rv > 0 then deliver_return l
        else l\<lparr>pc := L113_printf\<rparr>
    | L113_printf \<Rightarrow> l\<lparr>pc := L_exit1\<rparr>
    | L_exit1 \<Rightarrow> l
    | L81_close \<Rightarrow> l\<lparr>pc := L84_print\<rparr>
    | L84_print \<Rightarrow> l\<lparr>cursor := (PIPE_INVALID, PIPE_INVALID), val := 0, pc := L91_read\<rparr>
    | L91_read \<Rightarrow>
        if rv > 0 then
          (if fst d mod n l = 0 then l\<lparr>val := fst d\<rparr> else l\<lparr>val := fst d, pc := L71_test\<rparr>)
        else l\<lparr>pc := L103_close\<rparr>
    | L103_close \<Rightarrow> l\<lparr>pc := L104_close\<rparr>
    | L104_close \<Rightarrow> l\<lparr>pc := L105_close\<rparr>
    | L105_close \<Rightarrow> l\<lparr>pc := L108_wait\<rparr>
    | L108_wait \<Rightarrow> l\<lparr>pc := L109_exit\<rparr>
    | L109_exit \<Rightarrow> l)"

subsection \<open>Processes, descriptor tables and pipes\<close>

datatype endpoint = Console | Pipe_read nat | Pipe_write nat

datatype procstate = RUNNING | ZOMBIE int | UNUSED

record proc = locals +
  ofile :: "endpoint option list"   \<comment> \<open>open files, indexed by descriptor\<close>
  parent :: "nat option"
  pstate :: procstate

record kstate =
  procs :: "proc list"        \<comment> \<open>process table, indexed by pid\<close>
  pipes :: "int list list"    \<comment> \<open>the numbers in transit in each pipe, oldest first\<close>
  out :: "line list"          \<comment> \<open>the console\<close>

text \<open>\<^verbatim>\<open>int p[2] = {PIPE_INVALID, PIPE_INVALID}\<close> (line 133) with descriptors 0, 1 and 2
  on the console.\<close>

definition init :: kstate where
  "init = \<lparr>procs = [\<lparr>pc = L136_print, role = Driver, n = 0, pipe_left = (0, 0), val = 0,
                      cursor = (PIPE_INVALID, PIPE_INVALID),
                      ofile = [Some Console, Some Console, Some Console],
                      parent = None, pstate = RUNNING\<rparr>],
            pipes = [], out = []\<rparr>"

definition lookup :: "endpoint option list \<Rightarrow> int \<Rightarrow> endpoint option" where
  "lookup fs fd = (if 0 \<le> fd \<and> nat fd < length fs then fs ! nat fd else None)"

fun fdalloc :: "endpoint option list \<Rightarrow> nat" where
  "fdalloc [] = 0"
| "fdalloc (f # fs) = (if f = None then 0 else Suc (fdalloc fs))"

definition install :: "endpoint option list \<Rightarrow> nat \<Rightarrow> endpoint \<Rightarrow> endpoint option list" where
  "install fs k f = (if k < length fs then fs[k := Some f] else fs @ [Some f])"

definition writers :: "kstate \<Rightarrow> nat \<Rightarrow> bool" where
  "writers s q = (\<exists>P \<in> set (procs s). Some (Pipe_write q) \<in> set (ofile P))"

definition readers :: "kstate \<Rightarrow> nat \<Rightarrow> bool" where
  "readers s q = (\<exists>P \<in> set (procs s). Some (Pipe_read q) \<in> set (ofile P))"

definition set_proc :: "nat \<Rightarrow> proc \<Rightarrow> kstate \<Rightarrow> kstate" where
  "set_proc p P s = s\<lparr>procs := (procs s)[p := P]\<rparr>"

subsection \<open>The kernel interface\<close>

text \<open>Modelled from the spec: the system calls \<^verbatim>\<open>pipe\<close>, \<^verbatim>\<open>fork\<close>, \<^verbatim>\<open>read\<close>,
  \<^verbatim>\<open>write\<close>, \<^verbatim>\<open>close\<close>, \<^verbatim>\<open>wait\<close> and \<^verbatim>\<open>exit\<close> of the kernel, which are not among the
  sources.  \<open>sys_pipe\<close> is the channel's \<open>create\<close>: a fresh pipe, its two endpoints
  installed as a pair in the two lowest free descriptors of the caller.\<close>

definition sys_pipe :: "nat \<Rightarrow> kstate \<Rightarrow> (int \<times> int) \<times> kstate" where
  "sys_pipe p s =
    (let P = procs s ! p;
         q = length (pipes s);
         r = fdalloc (ofile P);
         fs = install (ofile P) r (Pipe_read q);
         w = fdalloc fs
     in ((int r, int w),
         set_proc p (P\<lparr>ofile := install fs w (Pipe_write q)\<rparr>) (s\<lparr>pipes := pipes s @ [[]]\<rparr>)))"

text \<open>Modelled from the spec: \<^verbatim>\<open>close\<close> releases the caller's copy of an endpoint.
  A descriptor that is not open is an error and releases nothing.\<close>

definition sys_close :: "nat \<Rightarrow> int \<Rightarrow> kstate \<Rightarrow> int \<times> kstate" where
  "sys_close p fd s =
    (let P = procs s ! p in
     if lookup (ofile P) fd = None then (- 1, s)
     else (0, set_proc p (P\<lparr>ofile := (ofile P)[nat fd := None]\<rparr>) s))"

text \<open>Modelled from the spec: \<^verbatim>\<open>read\<close> is the channel's \<open>receive\<close>.  It takes the oldest
  number; on an empty pipe it reports end-of-stream (0) once every copy of the write
  endpoint is closed, and blocks (\<open>None\<close>) until then.\<close>

definition sys_read :: "nat \<Rightarrow> int \<Rightarrow> kstate \<Rightarrow> ((int \<times> int) \<times> kstate) option" where
  "sys_read p fd s =
    (case lookup (ofile (procs s ! p)) fd of
       Some (Pipe_read q) \<Rightarrow>
         if q < length (pipes s) then
           (case pipes s ! q of
              v # vs \<Rightarrow> Some ((4, v), s\<lparr>pipes := (pipes s)[q := vs]\<rparr>)
            | [] \<Rightarrow> if writers s q then None else Some ((0, 0), s))
         else Some ((- 1, 0), s)
     | _ \<Rightarrow> Some ((- 1, 0), s))"

text \<open>Modelled from the spec: \<^verbatim>\<open>write\<close> is the channel's \<open>send\<close>, for an unbounded
  channel (a bounded one only removes interleavings).  It fails when no copy of the read
  endpoint is open.\<close>

definition sys_write :: "nat \<Rightarrow> int \<Rightarrow> int \<Rightarrow> kstate \<Rightarrow> int \<times> kstate" where
  "sys_write p fd v s =
    (case lookup (ofile (procs s ! p)) fd of
       Some (Pipe_write q) \<Rightarrow>
         if q < length (pipes s) \<and> readers s q
         then (4, s\<lparr>pipes := (pipes s)[q := pipes s ! q @ [v]]\<rparr>)
         else (- 1, s)
     | _ \<Rightarrow> (- 1, s))"

text \<open>Modelled from the spec: \<^verbatim>\<open>wait\<close> is \<open>join\<close>.  It collects one terminated child,
  whose slot becomes unused; it fails at once when the caller has no child, and blocks
  (\<open>None\<close>) while its children are all running.\<close>

definition children :: "kstate \<Rightarrow> nat \<Rightarrow> nat list" where
  "children s p =
     filter (\<lambda>c. parent (procs s ! c) = Some p \<and> pstate (procs s ! c) \<noteq> UNUSED)
       [0 ..< length (procs s)]"

definition is_zombie :: "kstate \<Rightarrow> nat \<Rightarrow> bool" where
  "is_zombie s c = (case pstate (procs s ! c) of ZOMBIE st \<Rightarrow> True | _ \<Rightarrow> False)"

definition sys_wait :: "nat \<Rightarrow> kstate \<Rightarrow> (int \<times> kstate) option" where
  "sys_wait p s =
    (case filter (is_zombie s) (children s p) of
       c # cs \<Rightarrow> Some (int c, set_proc c ((procs s ! c)\<lparr>pstate := UNUSED\<rparr>) s)
     | [] \<Rightarrow> if children s p = [] then Some (- 1, s) else None)"

text \<open>Modelled from the spec: \<^verbatim>\<open>exit\<close> terminates the worker with a status; all its
  endpoints are released.\<close>

definition sys_exit :: "nat \<Rightarrow> int \<Rightarrow> kstate \<Rightarrow> kstate" where
  "sys_exit p st s = set_proc p ((procs s ! p)\<lparr>ofile := [], pstate := ZOMBIE st\<rparr>) s"

text \<open>The return of a system call into process \<open>p\<close>.\<close>

definition ret :: "int \<Rightarrow> nat \<Rightarrow> int \<Rightarrow> int \<times> int \<Rightarrow> kstate \<Rightarrow> kstate" where
  "ret N p rv d s = set_proc p (resume N (procs s ! p) rv d) s"

text \<open>Modelled from the spec: \<^verbatim>\<open>fork\<close> is \<open>spawn\<close>.  The child is a copy of the caller,
  with copies of all its open endpoints; \<^verbatim>\<open>fork\<close> returns 0 in the child and the child's
  pid in the caller.\<close>

definition sys_fork :: "int \<Rightarrow> nat \<Rightarrow> kstate \<Rightarrow> kstate" where
  "sys_fork N p s =
    (let P = procs s ! p;
         c = length (procs s)
     in s\<lparr>procs := (procs s)[p := resume N P (int c) (0, 0)]
                     @ [(resume N P 0 (0, 0))\<lparr>parent := Some p\<rparr>]\<rparr>)"

text \<open>
  One step of process \<open>p\<close>: the system call of its control point, executed atomically.
  The flag \<open>ok\<close> is the kernel's answer to a request for a new resource: \<^verbatim>\<open>pipe\<close> and
  \<^verbatim>\<open>fork\<close> fail when it is \<open>False\<close> (the limits of the kernel are not among the
  sources, so a request may fail at any time).  A blocked call gives \<open>None\<close>.
\<close>

definition kstep :: "int \<Rightarrow> kstate \<Rightarrow> nat \<times> bool \<Rightarrow> kstate option" where
  "kstep N s l =
    (let p = fst l; ok = snd l in
     if p < length (procs s) \<and> pstate (procs s ! p) = RUNNING then
       (case call (procs s ! p) of
          Sys_none \<Rightarrow> Some (ret N p 0 (0, 0) s)
        | Sys_printf ln \<Rightarrow> Some (ret N p 0 (0, 0) (s\<lparr>out := out s @ [ln]\<rparr>))
        | Sys_pipe \<Rightarrow>
            if ok then (case sys_pipe p s of (d, s1) \<Rightarrow> Some (ret N p 0 d s1))
            else Some (ret N p (- 1) (0, 0) s)
        | Sys_fork \<Rightarrow>
            if ok then Some (sys_fork N p s) else Some (ret N p (- 1) (0, 0) s)
        | Sys_read fd \<Rightarrow>
            (case sys_read p fd s of
               None \<Rightarrow> None
             | Some ((rv, v), s1) \<Rightarrow> Some (ret N p rv (v, 0) s1))
        | Sys_write fd v \<Rightarrow> (case sys_write p fd v s of (rv, s1) \<Rightarrow> Some (ret N p rv (0, 0) s1))
        | Sys_close fd \<Rightarrow> (case sys_close p fd s of (rv, s1) \<Rightarrow> Some (ret N p rv (0, 0) s1))
        | Sys_wait \<Rightarrow>
            (case sys_wait p s of
               None \<Rightarrow> None
             | Some (rv, s1) \<Rightarrow> Some (ret N p rv (0, 0) s1))
        | Sys_exit st \<Rightarrow> Some (sys_exit p st s))
     else None)"

text \<open>A run is a list of steps; the states reachable from \<open>init\<close> are the ends of runs.\<close>

fun run :: "int \<Rightarrow> (nat \<times> bool) list \<Rightarrow> kstate \<Rightarrow> kstate option" where
  "run N [] s = Some s"
| "run N (l # ls) s = (case kstep N s l of None \<Rightarrow> None | Some s1 \<Rightarrow> run N ls s1)"

inductive reach :: "int \<Rightarrow> kstate \<Rightarrow> bool" for N where
  reach_init: "reach N init"
| reach_step: "reach N s \<Longrightarrow> kstep N s l = Some s1 \<Longrightarrow> reach N s1"

definition fresh :: "pc \<Rightarrow> bool" where
  "fresh c \<longleftrightarrow> c = L81_close \<or> c = L84_print"

definition main_pc :: "pc \<Rightarrow> bool" where
  "main_pc c \<longleftrightarrow> c \<in> {L136_print, L139_for, L150_close, L151_close, L154_wait, L156_return}"

definition child_pc :: "pc \<Rightarrow> bool" where
  "child_pc c \<longleftrightarrow> c \<in> {L81_close, L84_print, L91_read, L103_close, L104_close, L105_close, L108_wait, L109_exit}"

definition chain_ok :: "nat \<Rightarrow> nat \<Rightarrow> nat \<Rightarrow> proc \<Rightarrow> bool" where
  "chain_ok K L j P \<longleftrightarrow>
       (j = 0 \<longrightarrow> role P = Driver \<and> parent P = None \<and> \<not> child_pc (pc P))
     \<and> (j \<noteq> 0 \<longrightarrow> role P = Stage \<and> parent P = Some (j - 1) \<and> \<not> main_pc (pc P))
     \<and> (fresh (pc P) \<longrightarrow> j = K)
     \<and> (\<not> fresh (pc P) \<and> j < K \<longrightarrow> 0 \<le> fst (cursor P) \<and> 0 \<le> snd (cursor P))
     \<and> (\<not> fresh (pc P) \<and> \<not> j < K \<longrightarrow> cursor P = (PIPE_INVALID, PIPE_INVALID))
     \<and> (pc P = L78_fork \<or> pc P = L113_printf \<longrightarrow> j + 1 = L \<and> K = L)
     \<and> (pc P = L74_printf \<longrightarrow> j = K)"

definition inv_chain :: "kstate \<Rightarrow> bool" where
  "inv_chain s \<longleftrightarrow>
     0 < length (procs s) \<and> length (pipes s) \<le> length (procs s)
   \<and> length (procs s) \<le> length (pipes s) + 1
   \<and> (\<forall>j < length (procs s). chain_ok (length (pipes s)) (length (procs s)) j (procs s ! j))"

definition local_ret :: "kstate \<Rightarrow> nat \<Rightarrow> bool \<Rightarrow> int \<Rightarrow> int \<times> int \<Rightarrow> line list \<Rightarrow> bool" where
  "local_ret s p ok rv d lns \<longleftrightarrow>
       call (procs s ! p) = Sys_none \<and> rv = 0 \<and> lns = []
       \<or> (\<exists>ln. call (procs s ! p) = Sys_printf ln \<and> rv = 0 \<and> lns = [ln])
       \<or> call (procs s ! p) = Sys_pipe \<and> rv = - 1 \<and> \<not> ok \<and> lns = []
       \<or> call (procs s ! p) = Sys_fork \<and> rv = - 1 \<and> \<not> ok \<and> lns = []
       \<or> (\<exists>fd. call (procs s ! p) = Sys_read fd \<and> sys_read p fd s = Some ((rv, fst d), s) \<and> rv \<le> 0 \<and> lns = [])
       \<or> (\<exists>fd v. call (procs s ! p) = Sys_write fd v \<and> sys_write p fd v s = (rv, s) \<and> rv = - 1 \<and> lns = [])
       \<or> (\<exists>fd. call (procs s ! p) = Sys_close fd \<and> lookup (ofile (procs s ! p)) fd = None \<and> rv = - 1 \<and> lns = [])
       \<or> call (procs s ! p) = Sys_wait \<and> children s p = [] \<and> rv = - 1 \<and> lns = []"

definition w_closed :: "pc \<Rightarrow> bool" where
  "w_closed c \<longleftrightarrow> c = L154_wait \<or> c = L156_return \<or> c = L108_wait \<or> c = L109_exit"

definition r_closed :: "pc \<Rightarrow> bool" where
  "r_closed c \<longleftrightarrow> w_closed c \<or> c = L151_close \<or> c = L105_close"

definition l_closed :: "pc \<Rightarrow> bool" where
  "l_closed c \<longleftrightarrow> c = L104_close \<or> c = L105_close \<or> c = L108_wait \<or> c = L109_exit"

definition cur_open :: "nat \<Rightarrow> nat \<Rightarrow> proc \<Rightarrow> bool" where
  "cur_open K j P \<longleftrightarrow>
     (pstate P = RUNNING \<and> j < K \<and> \<not> fresh (pc P) \<and> \<not> r_closed (pc P) \<longrightarrow>
        lookup (ofile P) (PIPE_READ (cursor P)) = Some (Pipe_read j))
   \<and> (pstate P = RUNNING \<and> j < K \<and> \<not> fresh (pc P) \<and> \<not> w_closed (pc P) \<longrightarrow>
        lookup (ofile P) (PIPE_WRITE (cursor P)) = Some (Pipe_write j))"

definition up_open :: "nat \<Rightarrow> proc \<Rightarrow> bool" where
  "up_open j P \<longleftrightarrow>
     (pstate P = RUNNING \<and> j \<noteq> 0 \<and> pc P = L81_close \<longrightarrow>
        lookup (ofile P) (PIPE_WRITE (pipe_left P)) = Some (Pipe_write (j - 1)))
   \<and> (pstate P = RUNNING \<and> j \<noteq> 0 \<and> \<not> l_closed (pc P) \<longrightarrow>
        lookup (ofile P) (PIPE_READ (pipe_left P)) = Some (Pipe_read (j - 1)))"

definition inv_fds :: "kstate \<Rightarrow> bool" where
  "inv_fds s \<longleftrightarrow>
     (\<forall>j < length (procs s). cur_open (length (pipes s)) j (procs s ! j) \<and> up_open j (procs s ! j))"

definition exit_pc :: "pc \<Rightarrow> bool" where
  "exit_pc c \<longleftrightarrow> c = L156_return \<or> c = L109_exit"

definition done_below :: "kstate \<Rightarrow> nat \<Rightarrow> bool" where
  "done_below s j \<longleftrightarrow> (\<forall>m. j < m \<and> m < length (procs s) \<longrightarrow> pstate (procs s ! m) = UNUSED)"

definition exit_ok :: "kstate \<Rightarrow> nat \<Rightarrow> bool" where
  "exit_ok s j \<longleftrightarrow>
      (pstate (procs s ! j) \<noteq> RUNNING \<longrightarrow> exit_pc (pc (procs s ! j)) \<or> pc (procs s ! j) = L_exit1)
    \<and> (pc (procs s ! j) = L_exit1 \<longrightarrow> j + 1 = length (procs s))
    \<and> (pstate (procs s ! j) \<noteq> RUNNING \<or> exit_pc (pc (procs s ! j)) \<longrightarrow> done_below s j)"

definition inv_exit :: "kstate \<Rightarrow> bool" where
  "inv_exit s \<longleftrightarrow> (\<forall>j < length (procs s). exit_ok s j)"

definition in_teardown :: "pc \<Rightarrow> bool" where
  "in_teardown c \<longleftrightarrow> c = L103_close \<or> c = L104_close \<or> c = L105_close \<or> c = L108_wait \<or> c = L109_exit"

definition main_teardown :: "pc \<Rightarrow> bool" where
  "main_teardown c \<longleftrightarrow> c = L150_close \<or> c = L151_close \<or> c = L154_wait \<or> c = L156_return"

definition writer_gone :: "kstate \<Rightarrow> nat \<Rightarrow> bool" where
  "writer_gone s q \<longleftrightarrow> (pstate (procs s ! q) = RUNNING \<longrightarrow> w_closed (pc (procs s ! q)))"

definition teardown_ok :: "int \<Rightarrow> kstate \<Rightarrow> nat \<Rightarrow> bool" where
  "teardown_ok N s j \<longleftrightarrow>
      (j = 0 \<and> main_teardown (pc (procs s ! j)) \<longrightarrow> N < val (procs s ! j))
    \<and> (j \<noteq> 0 \<and> in_teardown (pc (procs s ! j)) \<longrightarrow>
         pipes s ! (j - 1) = [] \<and> writer_gone s (j - 1))"

definition same_locals :: "proc \<Rightarrow> proc \<Rightarrow> bool" where
  "same_locals P Q \<longleftrightarrow> pc P = pc Q \<and> role P = role Q \<and> n P = n Q \<and> pipe_left P = pipe_left Q
     \<and> val P = val Q \<and> cursor P = cursor Q"

definition inv_teardown :: "int \<Rightarrow> kstate \<Rightarrow> bool" where
  "inv_teardown N s \<longleftrightarrow> (\<forall>j < length (procs s). teardown_ok N s j)"

definition holds :: "endpoint option list \<Rightarrow> endpoint \<Rightarrow> bool" where
  "holds fs e \<longleftrightarrow> (\<exists>fd. lookup fs fd = Some e)"

definition wr_only :: "nat \<Rightarrow> proc \<Rightarrow> bool" where
  "wr_only j P \<longleftrightarrow>
     (\<forall>fd q. lookup (ofile P) fd = Some (Pipe_write q) \<longrightarrow>
         q = j \<and> \<not> fresh (pc P) \<and> \<not> w_closed (pc P) \<and> fd = PIPE_WRITE (cursor P)
       \<or> j = q + 1 \<and> pc P = L81_close \<and> fd = PIPE_WRITE (pipe_left P))"

definition anc_open :: "nat \<Rightarrow> proc \<Rightarrow> bool" where
  "anc_open j P \<longleftrightarrow>
     (pstate P = RUNNING \<longrightarrow> (\<forall>q. q + 1 < j \<longrightarrow> holds (ofile P) (Pipe_read q)))
   \<and> (pstate P \<noteq> RUNNING \<longrightarrow> ofile P = [])"

definition inv_ends :: "kstate \<Rightarrow> bool" where
  "inv_ends s \<longleftrightarrow> (\<forall>j < length (procs s). wr_only j (procs s ! j) \<and> anc_open j (procs s ! j))"

definition local_ok :: "proc \<Rightarrow> int \<Rightarrow> bool" where
  "local_ok P rv \<longleftrightarrow>
     (call P = Sys_pipe \<longrightarrow> rv < 0) \<and> (call P = Sys_fork \<longrightarrow> rv \<noteq> 0)
   \<and> (\<forall>fd. call P = Sys_close fd \<longrightarrow> lookup (ofile P) fd = None)"

subsection \<open>Concrete runs\<close>

text \<open>\<open>exec N ls s\<close> is the end of the run \<open>ls\<close> from \<open>s\<close> (\<open>s\<close> itself when a step of
  \<open>ls\<close> is blocked).  \<open>rounds\<close> writes a schedule as a list of pairs \<open>(p, k)\<close>: process
  \<open>p\<close> takes \<open>k\<close> steps, every request for a resource granted.\<close>

definition exec :: "int \<Rightarrow> (nat \<times> bool) list \<Rightarrow> kstate \<Rightarrow> kstate" where
  "exec N ls s = (case run N ls s of Some s1 \<Rightarrow> s1 | None \<Rightarrow> s)"

definition rounds :: "(nat \<times> nat) list \<Rightarrow> (nat \<times> bool) list" where
  "rounds rs = concat (map (\<lambda>(p, k). replicate k (p, True)) rs)"

text \<open>The schedule for \<^verbatim>\<open>MAX_PRIMES\<close> = 35 in which every process runs until it blocks,
  lowest pid first: the Driver writes all its numbers and waits, then each Stage in turn
  filters its whole input and waits; the chain then unwinds from the deepest Stage.\<close>

definition lowest_first_35 :: "(nat \<times> bool) list" where
  "lowest_first_35 = rounds
     [(0, 55), (1, 34), (2, 25), (3, 21), (4, 19), (5, 17), (6, 15), (7, 13), (8, 11), (9, 9),
      (10, 8), (9, 2), (8, 2), (7, 2), (6, 2), (5, 2), (4, 2), (3, 2), (2, 2), (1, 2), (0, 2)]"

text \<open>An early state: the Driver has spawned the first Stage and is about to write 5.\<close>

definition early_35 :: kstate where
  "early_35 = exec 35 (rounds [(0, 6)]) init"

text \<open>An intermediate state of that run: the Driver and the first Stage have done their
  work and wait, the second Stage (prime 5) has just entered its loop.\<close>

definition mid_35 :: kstate where
  "mid_35 = exec 35 (rounds [(0, 55), (1, 34), (2, 3)]) init"

definition final_35 :: kstate where
  "final_35 = exec 35 lowest_first_35 init"

text \<open>The system is finished when no process is running.\<close>

definition finished :: "kstate \<Rightarrow> bool" where
  "finished s \<longleftrightarrow> (\<forall>P \<in> set (procs s). pstate P \<noteq> RUNNING)"

subsection \<open>Probe states\<close>

text \<open>The Driver alone, placed at a given control point with a given cursor and the
  current value 3: with \<open>L71_test\<close> and an invalid cursor this is the state in which
  \<^verbatim>\<open>main\<close> first calls \<^verbatim>\<open>deliver_prime\<close>.\<close>

definition probe :: "pc \<Rightarrow> int \<times> int \<Rightarrow> kstate" where
  "probe c0 cur = set_proc 0 ((procs init ! 0)\<lparr>pc := c0, val := 3, cursor := cur\<rparr>) init"

section \<open>The spawner keeps both endpoints\<close>

text \<open>Two states of the run for \<^verbatim>\<open>MAX_PRIMES\<close> = 35 in which only the Driver has moved: it is
  about to deliver 3 with an uninitialised cursor (2 steps), and it has created the pipe
  and spawned the first Stage (4 steps).\<close>

definition first_deliver_35 :: kstate where
  "first_deliver_35 = exec 35 (rounds [(0, 2)]) init"

definition after_spawn_35 :: kstate where
  "after_spawn_35 = exec 35 (rounds [(0, 4)]) init"

section \<open>Closing a cursor\<close>


section \<open>A cursor is initialised at most once\<close>

text \<open>The number of steps of a run in which process \<open>p\<close> is given a new pipe (line 72
  succeeds: the cursor of \<open>p\<close> becomes initialised), and in which it is given a new process
  (line 78 succeeds: a Stage is spawned).\<close>

fun allocs :: "int \<Rightarrow> nat \<Rightarrow> (nat \<times> bool) list \<Rightarrow> kstate \<Rightarrow> nat" where
  "allocs N p [] s = 0"
| "allocs N p (l # ls) s = (case kstep N s l of None \<Rightarrow> 0 | Some s1 \<Rightarrow>
     (if l = (p, True) \<and> call (procs s ! p) = Sys_pipe then 1 else 0) + allocs N p ls s1)"

fun spawns :: "int \<Rightarrow> nat \<Rightarrow> (nat \<times> bool) list \<Rightarrow> kstate \<Rightarrow> nat" where
  "spawns N p [] s = 0"
| "spawns N p (l # ls) s = (case kstep N s l of None \<Rightarrow> 0 | Some s1 \<Rightarrow>
     (if l = (p, True) \<and> call (procs s ! p) = Sys_fork then 1 else 0) + spawns N p ls s1)"

text \<open>The cursor of a process is initialised.\<close>

definition initialised :: "proc \<Rightarrow> bool" where
  "initialised P \<longleftrightarrow> \<not> fresh (pc P) \<and> PIPE_WRITE (cursor P) \<noteq> PIPE_INVALID"

text \<open>The states of the Driver when the range has no candidate after 2.\<close>

definition inv_small :: "kstate \<Rightarrow> bool" where
  "inv_small s \<longleftrightarrow> length (procs s) = 1 \<and> pipes s = []
     \<and> (pc (procs s ! 0) = L136_print \<and> out s = [] \<and> pstate (procs s ! 0) = RUNNING
        \<or> pc (procs s ! 0) = L139_for \<and> val (procs s ! 0) = 3 \<and> out s = [Prime_line 2]
        \<or> main_teardown (pc (procs s ! 0)) \<and> out s = [Prime_line 2])"

definition done_2 :: kstate where
  "done_2 = exec 2 (rounds [(0, 6)]) init"

definition driver_alone_35 :: "(nat \<times> bool) list" where
  "driver_alone_35 = rounds [(0, 55)]"

section \<open>A Stage alone\<close>

text \<open>
  Modelled from the spec: a Stage run alone against channels that never fail (section 4.1
  of the spec; the kernel is not among the sources).  The configuration is the Stage's
  local state, the numbers that its upstream will still deliver, and the events so far.
  \<^verbatim>\<open>read\<close> delivers the next number (4 bytes) or end-of-stream (0); \<^verbatim>\<open>pipe\<close> answers with
  the two descriptors \<open>fds\<close>; \<^verbatim>\<open>fork\<close> answers the parent with the pid 1 of a new Stage
  that was handed the value in flight; \<^verbatim>\<open>write\<close> accepts the 4 bytes; \<^verbatim>\<open>close\<close> and \<^verbatim>\<open>wait\<close>
  succeed.  The local code is \<open>call\<close> and \<open>resume\<close>, as in the whole system.
\<close>

datatype event = Printed line | Spawned int | Written int int

type_synonym config = "locals \<times> int list \<times> event list"

definition mstep :: "int \<Rightarrow> nat \<times> nat \<Rightarrow> config \<Rightarrow> config" where
  "mstep N fds c = (case c of (l, xs, evs) \<Rightarrow>
     (case call l of
        Sys_none \<Rightarrow> (resume N l 0 (0, 0), xs, evs)
      | Sys_printf ln \<Rightarrow> (resume N l 0 (0, 0), xs, evs @ [Printed ln])
      | Sys_pipe \<Rightarrow> (resume N l 0 (int (fst fds), int (snd fds)), xs, evs)
      | Sys_fork \<Rightarrow> (resume N l 1 (0, 0), xs, evs @ [Spawned (val l)])
      | Sys_read fd \<Rightarrow>
          (case xs of [] \<Rightarrow> (resume N l 0 (0, 0), xs, evs)
           | v # vs \<Rightarrow> (resume N l 4 (v, 0), vs, evs))
      | Sys_write fd v \<Rightarrow> (resume N l 4 (0, 0), xs, evs @ [Written fd v])
      | Sys_close fd \<Rightarrow> (resume N l 0 (0, 0), xs, evs)
      | Sys_wait \<Rightarrow> (resume N l 1 (0, 0), xs, evs)
      | Sys_exit st \<Rightarrow> c))"

text \<open>The Stage runs until it calls \<^verbatim>\<open>exit\<close>; \<open>None\<close> when the fuel does not suffice.\<close>

fun mrun :: "int \<Rightarrow> nat \<times> nat \<Rightarrow> nat \<Rightarrow> config \<Rightarrow> config option" where
  "mrun N fds 0 c = None"
| "mrun N fds (Suc k) c =
     (case call (fst c) of Sys_exit st \<Rightarrow> Some c | _ \<Rightarrow> mrun N fds k (mstep N fds c))"

text \<open>The values that a list of events hands downstream, in order: the value given to
  the spawned Stage, then the values written.\<close>

fun sent :: "event list \<Rightarrow> int list" where
  "sent [] = []"
| "sent (Printed ln # es) = sent es"
| "sent (Spawned v # es) = v # sent es"
| "sent (Written fd v # es) = v # sent es"

text \<open>What delivering the values \<open>vs\<close> one after the other to a cursor looks like: the first
  one spawns, the others are written to the descriptor \<open>w\<close>.\<close>

fun forwards :: "int \<Rightarrow> int list \<Rightarrow> event list" where
  "forwards w [] = []"
| "forwards w (v # vs) = Spawned v # map (Written w) vs"

definition parent_3 :: locals where
  "parent_3 = \<lparr>pc = L78_fork, role = Driver, n = 0, pipe_left = (0, 0), val = 3, cursor = (3, 4)\<rparr>"

definition at_read :: "int \<Rightarrow> locals \<Rightarrow> bool" where
  "at_read p l \<longleftrightarrow> pc l = L91_read \<and> role l = Stage \<and> n l = p"

section \<open>Basic facts\<close>

lemma procs_set_proc [simp]: "procs (set_proc p P s) = (procs s)[p := P]"
  and pipes_set_proc [simp]: "pipes (set_proc p P s) = pipes s"
  and out_set_proc [simp]: "out (set_proc p P s) = out s"
  by (simp_all add: set_proc_def)

lemma fdalloc_le: "fdalloc fs \<le> length fs"
  by (induction fs) auto

lemma fdalloc_free: "fdalloc fs < length fs \<Longrightarrow> fs ! fdalloc fs = None"
  by (induction fs) auto

lemma lookup_install:
  "lookup (install fs (fdalloc fs) e) fd = (if fd = int (fdalloc fs) then Some e else lookup fs fd)"
  using fdalloc_le [of fs] fdalloc_free [of fs]
  by (auto simp: lookup_def install_def nth_append nth_list_update)

lemma lookup_close:
  "0 \<le> fd \<Longrightarrow> lookup (fs[nat fd := None]) fd' = (if fd' = fd then None else lookup fs fd')"
  by (auto simp: lookup_def nth_list_update)

lemma lookup_Nil [simp]: "lookup [] fd = None"
  by (simp add: lookup_def)

lemma lookup_Some_nonneg: "lookup fs fd = Some e \<Longrightarrow> 0 \<le> fd"
  by (auto simp: lookup_def split: if_splits)

text \<open>step elimination\<close>

lemma kstep_elim:
  assumes "kstep N s l = Some s1"
  obtains
    (k_local) p ok rv d lns where "l = (p, ok)" "p < length (procs s)" "pstate (procs s ! p) = RUNNING"
      "s1 = set_proc p (resume N (procs s ! p) rv d) (s\<lparr>out := out s @ lns\<rparr>)"
      "call (procs s ! p) = Sys_none \<and> rv = 0 \<and> lns = []
       \<or> (\<exists>ln. call (procs s ! p) = Sys_printf ln \<and> rv = 0 \<and> lns = [ln])
       \<or> call (procs s ! p) = Sys_pipe \<and> rv = - 1 \<and> \<not> ok \<and> lns = []
       \<or> call (procs s ! p) = Sys_fork \<and> rv = - 1 \<and> \<not> ok \<and> lns = []
       \<or> (\<exists>fd. call (procs s ! p) = Sys_read fd \<and> sys_read p fd s = Some ((rv, fst d), s) \<and> rv \<le> 0 \<and> lns = [])
       \<or> (\<exists>fd v. call (procs s ! p) = Sys_write fd v \<and> sys_write p fd v s = (rv, s) \<and> rv = - 1 \<and> lns = [])
       \<or> (\<exists>fd. call (procs s ! p) = Sys_close fd \<and> lookup (ofile (procs s ! p)) fd = None \<and> rv = - 1 \<and> lns = [])
       \<or> call (procs s ! p) = Sys_wait \<and> children s p = [] \<and> rv = - 1 \<and> lns = []"
  | (k_close) p ok fd where "l = (p, ok)" "p < length (procs s)" "pstate (procs s ! p) = RUNNING"
      "call (procs s ! p) = Sys_close fd" "lookup (ofile (procs s ! p)) fd \<noteq> None"
      "s1 = set_proc p (resume N ((procs s ! p)\<lparr>ofile := (ofile (procs s ! p))[nat fd := None]\<rparr>) 0 (0, 0)) s"
  | (k_pipe) p where "l = (p, True)" "p < length (procs s)" "pstate (procs s ! p) = RUNNING"
      "call (procs s ! p) = Sys_pipe"
      "s1 = ret N p 0 (fst (sys_pipe p s)) (snd (sys_pipe p s))"
  | (k_fork) p where "l = (p, True)" "p < length (procs s)" "pstate (procs s ! p) = RUNNING"
      "call (procs s ! p) = Sys_fork"
      "s1 = sys_fork N p s"
  | (k_read) p ok fd q v vs where "l = (p, ok)" "p < length (procs s)" "pstate (procs s ! p) = RUNNING"
      "call (procs s ! p) = Sys_read fd" "lookup (ofile (procs s ! p)) fd = Some (Pipe_read q)"
      "q < length (pipes s)" "pipes s ! q = v # vs"
      "s1 = set_proc p (resume N (procs s ! p) 4 (v, 0)) (s\<lparr>pipes := (pipes s)[q := vs]\<rparr>)"
  | (k_write) p ok fd q v where "l = (p, ok)" "p < length (procs s)" "pstate (procs s ! p) = RUNNING"
      "call (procs s ! p) = Sys_write fd v" "lookup (ofile (procs s ! p)) fd = Some (Pipe_write q)"
      "q < length (pipes s)" "readers s q"
      "s1 = set_proc p (resume N (procs s ! p) 4 (0, 0)) (s\<lparr>pipes := (pipes s)[q := pipes s ! q @ [v]]\<rparr>)"
  | (k_reap) p ok c cs where "l = (p, ok)" "p < length (procs s)" "pstate (procs s ! p) = RUNNING"
      "call (procs s ! p) = Sys_wait" "filter (is_zombie s) (children s p) = c # cs"
      "s1 = ret N p (int c) (0, 0) (set_proc c ((procs s ! c)\<lparr>pstate := UNUSED\<rparr>) s)"
  | (k_exit) p ok st where "l = (p, ok)" "p < length (procs s)" "pstate (procs s ! p) = RUNNING"
      "call (procs s ! p) = Sys_exit st"
      "s1 = sys_exit p st s"
proof -
  obtain p ok where l: "l = (p, ok)" by (cases l)
  from assms l have run: "p < length (procs s)" "pstate (procs s ! p) = RUNNING"
    by (auto simp: kstep_def Let_def split: if_splits)
  show ?thesis
  proof (cases "call (procs s ! p)")
    case Sys_none
    with assms l run show ?thesis
      by (intro k_local [of p ok 0 "(0,0)" "[]"]) (auto simp: kstep_def ret_def)
  next
    case (Sys_printf ln)
    with assms l run show ?thesis
      by (intro k_local [of p ok 0 "(0,0)" "[ln]"]) (auto simp: kstep_def ret_def set_proc_def)
  next
    case Sys_pipe
    show ?thesis
    proof (cases ok)
      case True
      with Sys_pipe assms l run show ?thesis
        by (intro k_pipe [of p]) (auto simp: kstep_def split: prod.splits)
    next
      case False
      with Sys_pipe assms l run show ?thesis
        by (intro k_local [of p ok "-1" "(0,0)" "[]"]) (auto simp: kstep_def ret_def)
    qed
  next
    case Sys_fork
    show ?thesis
    proof (cases ok)
      case True
      with Sys_fork assms l run show ?thesis
        by (intro k_fork [of p]) (auto simp: kstep_def)
    next
      case False
      with Sys_fork assms l run show ?thesis
        by (intro k_local [of p ok "-1" "(0,0)" "[]"]) (auto simp: kstep_def ret_def)
    qed
  next
    case (Sys_read fd)
    with assms l run obtain rv v s2 where r: "sys_read p fd s = Some ((rv, v), s2)" "s1 = ret N p rv (v, 0) s2"
      by (auto simp: kstep_def split: option.splits prod.splits)
    show ?thesis
    proof (cases "rv \<le> 0")
      case True
      with r have "s2 = s"
        by (auto simp: sys_read_def split: option.splits endpoint.splits if_splits list.splits)
      with r True Sys_read l run show ?thesis
        by (intro k_local [of p ok rv "(v,0)" "[]"]) (auto simp: ret_def)
    next
      case False
      with r obtain q vs where "lookup (ofile (procs s ! p)) fd = Some (Pipe_read q)"
        "q < length (pipes s)" "pipes s ! q = v # vs" "s2 = s\<lparr>pipes := (pipes s)[q := vs]\<rparr>" "rv = 4"
        by (auto simp: sys_read_def split: option.splits endpoint.splits if_splits list.splits)
      with r Sys_read l run show ?thesis
        by (intro k_read [of p ok fd q v vs]) (auto simp: ret_def set_proc_def)
    qed
  next
    case (Sys_write fd v)
    with assms l run obtain rv s2 where r: "sys_write p fd v s = (rv, s2)" "s1 = ret N p rv (0, 0) s2"
      by (auto simp: kstep_def split: option.splits prod.splits)
    show ?thesis
    proof (cases "rv = 4")
      case True
      with r obtain q where "lookup (ofile (procs s ! p)) fd = Some (Pipe_write q)"
        "q < length (pipes s)" "readers s q" "s2 = s\<lparr>pipes := (pipes s)[q := pipes s ! q @ [v]]\<rparr>"
        by (auto simp: sys_write_def split: option.splits endpoint.splits if_splits)
      with r True Sys_write l run show ?thesis
        by (intro k_write [of p ok fd v q]) (auto simp: ret_def set_proc_def)
    next
      case False
      with r have "s2 = s" "rv = - 1"
        by (auto simp: sys_write_def split: option.splits endpoint.splits if_splits)
      with r Sys_write l run show ?thesis
        by (intro k_local [of p ok rv "(0,0)" "[]"]) (auto simp: ret_def)
    qed
  next
    case (Sys_close fd)
    show ?thesis
    proof (cases "lookup (ofile (procs s ! p)) fd")
      case None
      with Sys_close assms l run show ?thesis
        by (intro k_local [of p ok "-1" "(0,0)" "[]"]) (auto simp: kstep_def ret_def sys_close_def)
    next
      case (Some e)
      with Sys_close assms l run show ?thesis
        by (intro k_close [of p ok fd]) (auto simp: kstep_def ret_def sys_close_def set_proc_def Let_def)
    qed
  next
    case Sys_wait
    show ?thesis
    proof (cases "filter (is_zombie s) (children s p)")
      case Nil
      with Sys_wait assms l run show ?thesis
        by (intro k_local [of p ok "-1" "(0,0)" "[]"]) (auto simp: kstep_def ret_def sys_wait_def split: if_splits)
    next
      case (Cons c cs)
      with Sys_wait assms l run show ?thesis
        by (intro k_reap [of p ok c cs]) (auto simp: kstep_def sys_wait_def)
    qed
  next
    case (Sys_exit st)
    with assms l run show ?thesis
      by (intro k_exit [of p ok st]) (auto simp: kstep_def)
  qed
qed

lemma call_iffs:
  "call P = Sys_pipe \<longleftrightarrow> pc P = L71_test \<and> PIPE_WRITE (cursor P) = PIPE_INVALID"
  "call P = Sys_fork \<longleftrightarrow> pc P = L78_fork"
  "call P = Sys_read fd \<longleftrightarrow> pc P = L91_read \<and> fd = PIPE_READ (pipe_left P)"
  "call P = Sys_write fd v \<longleftrightarrow>
     pc P = L71_test \<and> PIPE_WRITE (cursor P) \<noteq> PIPE_INVALID \<and> fd = PIPE_WRITE (cursor P) \<and> v = val P"
  "call P = Sys_wait \<longleftrightarrow> pc P = L154_wait \<or> pc P = L108_wait"
  "call P = Sys_exit st \<longleftrightarrow>
     (pc P = L156_return \<or> pc P = L109_exit) \<and> st = 0 \<or> pc P = L_exit1 \<and> st = 1"
  "call P = Sys_close fd \<longleftrightarrow>
       pc P = L150_close \<and> fd = PIPE_READ (cursor P)
     \<or> pc P = L151_close \<and> fd = PIPE_WRITE (cursor P)
     \<or> fd \<noteq> PIPE_INVALID \<and>
        (pc P = L81_close \<and> fd = PIPE_WRITE (pipe_left P)
       \<or> pc P = L103_close \<and> fd = PIPE_READ (pipe_left P)
       \<or> pc P = L104_close \<and> fd = PIPE_READ (cursor P)
       \<or> pc P = L105_close \<and> fd = PIPE_WRITE (cursor P))"
  "call P = Sys_printf ln \<longleftrightarrow>
       pc P = L136_print \<and> ln = Prime_line START_PRIME
     \<or> pc P = L84_print \<and> ln = Prime_line (n P)
     \<or> pc P = L74_printf \<and> ln = Pipe_error (val P)
     \<or> pc P = L113_printf \<and> ln = Fork_error (val P)"
  "call P = Sys_none \<longleftrightarrow>
       pc P = L139_for
     \<or> pc P = L81_close \<and> PIPE_WRITE (pipe_left P) = PIPE_INVALID
     \<or> pc P = L103_close \<and> PIPE_READ (pipe_left P) = PIPE_INVALID
     \<or> pc P = L104_close \<and> PIPE_READ (cursor P) = PIPE_INVALID
     \<or> pc P = L105_close \<and> PIPE_WRITE (cursor P) = PIPE_INVALID"
  by (auto simp: call_def close_pipe_if_valid_def print_prime_def split: pc.splits)

lemma inv_chain_init: "inv_chain init"
  by (simp add: inv_chain_def chain_ok_def init_def fresh_def child_pc_def)

lemmas pc_preds = fresh_def main_pc_def child_pc_def

lemmas code_defs = resume_def deliver_return_def PIPE_WRITE_def PIPE_READ_def PIPE_INVALID_def

text \<open>what a local return can be, per control point\<close>

lemma local_ret_pc:
  assumes "local_ret s p ok rv d lns"
  shows "rv \<le> 0 \<and> (pc (procs s ! p) = L78_fork \<longrightarrow> rv < 0) 
     \<and> (pc (procs s ! p) = L71_test \<longrightarrow> rv < 0)
     \<and> pc (procs s ! p) \<noteq> L156_return \<and> pc (procs s ! p) \<noteq> L109_exit \<and> pc (procs s ! p) \<noteq> L_exit1"
  using assms unfolding local_ret_def by (cases "pc (procs s ! p)") (auto simp: call_iffs)

lemma chain_ok_resume:
  assumes "chain_ok K L j P" "pc P = L78_fork \<longrightarrow> rv < 0"
    "pc P = L71_test \<and> PIPE_WRITE (cursor P) = PIPE_INVALID \<longrightarrow> rv < 0"
    "j < L" "L \<le> K + 1"
  shows "chain_ok K L j (resume N P rv d)"
  using assms unfolding chain_ok_def
  by (cases "pc P") (auto simp: code_defs pc_preds split: role.splits)

lemma chain_ok_frame [simp]:
  "chain_ok K L j (P\<lparr>ofile := fs\<rparr>) = chain_ok K L j P"
  "chain_ok K L j (P\<lparr>pstate := st\<rparr>) = chain_ok K L j P"
  by (simp_all add: chain_ok_def)

lemma resume_frame [simp]:
  "ofile (resume N P rv d) = ofile P"
  "pstate (resume N P rv d) = pstate P"
  "parent (resume N P rv d) = parent P"
  by (cases "pc P"; simp add: resume_def deliver_return_def split: role.splits)+

lemma resume_ofile_upd:
  "resume N (P\<lparr>ofile := fs\<rparr>) rv d = (resume N P rv d)\<lparr>ofile := fs\<rparr>"
  by (cases "pc P"; simp add: resume_def deliver_return_def split: role.splits)

lemma resume_pstate_upd:
  "resume N (P\<lparr>pstate := st\<rparr>) rv d = (resume N P rv d)\<lparr>pstate := st\<rparr>"
  by (cases "pc P"; simp add: resume_def deliver_return_def split: role.splits)

lemma inv_chain_upd:
  assumes "inv_chain s" "p < length (procs s)"
    "chain_ok (length (pipes s)) (length (procs s)) p P'"
    "procs s1 = (procs s)[p := P']" "length (pipes s1) = length (pipes s)"
  shows "inv_chain s1"
  using assms by (simp add: inv_chain_def nth_list_update)

lemma chain_ok_more_pipes:
  assumes "chain_ok K L j P" "j < K" "K < L"
  shows "chain_ok (Suc K) L j P"
  using assms unfolding chain_ok_def by auto

lemma chain_ok_more_procs:
  assumes "chain_ok K L j P" "j + 1 < L"
  shows "chain_ok K (Suc L) j P"
  using assms unfolding chain_ok_def by auto

lemma chain_ok_at_pipe:
  assumes "chain_ok K L p P" "pc P = L71_test" "PIPE_WRITE (cursor P) = PIPE_INVALID" "p < L" "L \<le> K + 1"
  shows "p = K \<and> L = K + 1"
  using assms unfolding chain_ok_def by (cases "p < K") (auto simp: pc_preds code_defs)

lemma reap_child:
  assumes "filter (is_zombie s) (children s p) = c # cs"
  shows "c < length (procs s) \<and> parent (procs s ! c) = Some p
    \<and> (\<exists>st. pstate (procs s ! c) = ZOMBIE st)"
proof -
  have "c \<in> set (filter (is_zombie s) (children s p))" by (simp add: assms)
  then show ?thesis
    by (auto simp: children_def is_zombie_def split: procstate.splits)
qed

lemma inv_chain_step:
  assumes inv: "inv_chain s" and st: "kstep N s l = Some s1"
  shows "inv_chain s1"
  using st
proof (cases rule: kstep_elim)
  case (k_local p ok rv d lns)
  then have lr: "local_ret s p ok rv d lns" by (simp add: local_ret_def)
  from inv k_local(2) have "chain_ok (length (pipes s)) (length (procs s)) p (procs s ! p)"
    by (simp add: inv_chain_def)
  with local_ret_pc [OF lr]
  have "chain_ok (length (pipes s)) (length (procs s)) p (resume N (procs s ! p) rv d)"
    using inv k_local(2) by (intro chain_ok_resume) (auto simp: inv_chain_def)
  with inv k_local(2) show ?thesis
    by (rule inv_chain_upd) (simp_all add: k_local(4))
next
  case (k_close p ok fd)
  from inv k_close(2) have c: "chain_ok (length (pipes s)) (length (procs s)) p (procs s ! p)"
    by (simp add: inv_chain_def)
  from k_close(4) have "pc (procs s ! p) \<noteq> L78_fork" "pc (procs s ! p) \<noteq> L71_test"
    by (auto simp: call_iffs)
  with c inv k_close(2)
  have "chain_ok (length (pipes s)) (length (procs s)) p
      (resume N ((procs s ! p)\<lparr>ofile := (ofile (procs s ! p))[nat fd := None]\<rparr>) 0 (0, 0))"
    by (simp add: resume_ofile_upd chain_ok_resume inv_chain_def)
  with inv k_close(2) show ?thesis
    by (rule inv_chain_upd) (simp_all add: k_close(6))
next
  case (k_pipe p)
  let ?K = "length (pipes s)" and ?L = "length (procs s)" and ?P = "procs s ! p"
  from inv k_pipe(2) have c: "chain_ok ?K ?L p ?P" and KL: "?L \<le> ?K + 1"
    by (simp_all add: inv_chain_def)
  from k_pipe(4) have pc: "pc ?P = L71_test" "PIPE_WRITE (cursor ?P) = PIPE_INVALID"
    by (auto simp: call_iffs)
  from chain_ok_at_pipe [OF c pc k_pipe(2) KL] have pK: "p = ?K" "?L = ?K + 1" by auto
  define r where "r = fdalloc (ofile ?P)"
  define w where "w = fdalloc (install (ofile ?P) r (Pipe_read ?K))"
  define fs where "fs = install (install (ofile ?P) r (Pipe_read ?K)) w (Pipe_write ?K)"
  have s1: "procs s1 = (procs s)[p := ?P\<lparr>ofile := fs, cursor := (int r, int w), pc := L78_fork\<rparr>]"
     "pipes s1 = pipes s @ [[]]"
    using pc k_pipe(2) by (simp_all add: k_pipe(5) ret_def sys_pipe_def Let_def resume_def r_def w_def fs_def)
  have "chain_ok (Suc ?K) ?L j (procs s1 ! j)" if "j < ?L" for j
  proof (cases "j = p")
    case True
    with c pc pK k_pipe(2) show ?thesis
      by (auto simp: s1 chain_ok_def pc_preds)
  next
    case False
    with that pK have "j < ?K" by simp
    moreover from inv that have "chain_ok ?K ?L j (procs s ! j)" by (simp add: inv_chain_def)
    ultimately show ?thesis using False pK
      by (simp add: s1 chain_ok_more_pipes)
  qed
  with pK show ?thesis
    by (simp add: inv_chain_def s1)
next
  case (k_fork p)
  let ?K = "length (pipes s)" and ?L = "length (procs s)" and ?P = "procs s ! p"
  from inv k_fork(2) have c: "chain_ok ?K ?L p ?P" and KL: "?L \<le> ?K + 1"
    by (simp_all add: inv_chain_def)
  from k_fork(4) have pc: "pc ?P = L78_fork" by (auto simp: call_iffs)
  with c have pL: "p + 1 = ?L" "?K = ?L" by (auto simp: chain_ok_def)
  have s1: "procs s1 = (procs s)[p := deliver_return ?P]
        @ [?P\<lparr>role := Stage, n := val ?P, pipe_left := cursor ?P, pc := L81_close, parent := Some p\<rparr>]"
     "pipes s1 = pipes s"
    using pc k_fork(2) by (auto simp: k_fork(5) sys_fork_def Let_def resume_def)
  have "chain_ok ?K (Suc ?L) j (procs s1 ! j)" if j: "j < Suc ?L" for j
  proof -
    consider "j = p" | "j = ?L" | "j + 1 < ?L" using j pL by linarith
    then show ?thesis
    proof cases
      case 1
      with c pc pL k_fork(2) show ?thesis
        by (auto simp: s1 nth_append chain_ok_def pc_preds deliver_return_def split: role.splits)
    next
      case 2
      with c pc pL k_fork(2) show ?thesis
        by (auto simp: s1 nth_append chain_ok_def pc_preds)
    next
      case 3
      moreover from inv 3 have "chain_ok ?K ?L j (procs s ! j)" by (simp add: inv_chain_def)
      ultimately show ?thesis using pL
        by (simp add: s1 nth_append chain_ok_more_procs)
    qed
  qed
  with pL show ?thesis
    by (simp add: inv_chain_def s1)
next
  case (k_read p ok fd q v vs)
  from inv k_read(2) have c: "chain_ok (length (pipes s)) (length (procs s)) p (procs s ! p)"
    by (simp add: inv_chain_def)
  from k_read(4) have "pc (procs s ! p) = L91_read" by (auto simp: call_iffs)
  with c inv k_read(2)
  have "chain_ok (length (pipes s)) (length (procs s)) p (resume N (procs s ! p) 4 (v, 0))"
    by (simp add: chain_ok_resume inv_chain_def)
  with inv k_read(2) show ?thesis
    by (rule inv_chain_upd) (simp_all add: k_read(8))
next
  case (k_write p ok fd q v)
  from inv k_write(2) have c: "chain_ok (length (pipes s)) (length (procs s)) p (procs s ! p)"
    by (simp add: inv_chain_def)
  from k_write(4) have "pc (procs s ! p) = L71_test" "PIPE_WRITE (cursor (procs s ! p)) \<noteq> PIPE_INVALID"
    by (auto simp: call_iffs)
  with c inv k_write(2)
  have "chain_ok (length (pipes s)) (length (procs s)) p (resume N (procs s ! p) 4 (0, 0))"
    by (simp add: chain_ok_resume inv_chain_def)
  with inv k_write(2) show ?thesis
    by (rule inv_chain_upd) (simp_all add: k_write(8))
next
  case (k_reap p ok c cs)
  let ?s = "set_proc c ((procs s ! c)\<lparr>pstate := UNUSED\<rparr>) s"
  from reap_child [OF k_reap(5)] have cL: "c < length (procs s)" by simp
  from inv cL have is1: "inv_chain ?s"
    by (intro inv_chain_upd [OF inv cL]) (simp_all add: inv_chain_def)
  have pL: "p < length (procs ?s)" using k_reap(2) by simp
  from k_reap(4) have pc: "pc (procs ?s ! p) \<noteq> L78_fork" "pc (procs ?s ! p) \<noteq> L71_test"
    using cL k_reap(2) by (auto simp: call_iffs nth_list_update)
  from is1 pL have "chain_ok (length (pipes ?s)) (length (procs ?s)) p (procs ?s ! p)"
    unfolding inv_chain_def by blast
  then have "chain_ok (length (pipes ?s)) (length (procs ?s)) p (resume N (procs ?s ! p) (int c) (0, 0))"
    using pc pL is1 unfolding inv_chain_def by (intro chain_ok_resume) simp_all
  with is1 pL show ?thesis
    by (rule inv_chain_upd) (simp_all add: k_reap(6) ret_def)
next
  case (k_exit p ok st)
  from inv k_exit(2) have "chain_ok (length (pipes s)) (length (procs s)) p (procs s ! p)"
    by (simp add: inv_chain_def)
  with inv k_exit(2) show ?thesis
    by (intro inv_chain_upd [OF inv k_exit(2)]) (simp_all add: k_exit(5) sys_exit_def)
qed

lemma reach_inv_chain: "reach N s \<Longrightarrow> inv_chain s"
  by (induction rule: reach.induct) (auto intro: inv_chain_init inv_chain_step)

lemmas closed_preds = w_closed_def r_closed_def l_closed_def

lemma lookup_neg [simp]: "lookup fs PIPE_INVALID = None" "lookup fs (- 1) = None"
  by (simp_all add: lookup_def PIPE_INVALID_def)

lemma inv_fds_init: "inv_fds init"
  by (auto simp: inv_fds_def cur_open_def up_open_def init_def)

lemma cur_open_resume:
  assumes "cur_open K j P" "fresh (pc P) \<longrightarrow> \<not> j < K"
    "pc P = L71_test \<and> PIPE_WRITE (cursor P) = PIPE_INVALID \<longrightarrow> rv < 0" "pc P = L78_fork \<longrightarrow> rv \<noteq> 0"
  shows "cur_open K j (resume N P rv d)"
  using assms unfolding cur_open_def
  by (cases "pc P") (auto simp: code_defs pc_preds closed_preds split: role.splits)

lemma up_open_resume:
  assumes "up_open j P" "pc P = L78_fork \<longrightarrow> rv \<noteq> 0" 
  shows "up_open j (resume N P rv d)"
  using assms unfolding up_open_def
  by (cases "pc P") (auto simp: code_defs pc_preds closed_preds split: role.splits)

lemma close_sites:
  assumes "call P = Sys_close fd"
  shows "pc P = L150_close \<and> fd = fst (cursor P) \<or> pc P = L151_close \<and> fd = snd (cursor P)
     \<or> pc P = L81_close \<and> fd = snd (pipe_left P) \<or> pc P = L103_close \<and> fd = fst (pipe_left P)
     \<or> pc P = L104_close \<and> fd = fst (cursor P) \<or> pc P = L105_close \<and> fd = snd (cursor P)"
  using assms by (auto simp: call_iffs code_defs)

lemma lookup_differ: "lookup fs a = Some x \<Longrightarrow> lookup fs b = Some y \<Longrightarrow> x \<noteq> y \<Longrightarrow> a \<noteq> b"
  by auto

lemma cur_open_close:
  assumes "cur_open K j P" "up_open j P" "call P = Sys_close fd" "lookup (ofile P) fd \<noteq> None"
    "j = 0 \<longrightarrow> \<not> child_pc (pc P)"  "fresh (pc P) \<longrightarrow> \<not> j < K"
  shows "cur_open K j ((resume N P 0 (0, 0))\<lparr>ofile := (ofile P)[nat fd := None]\<rparr>)"
proof -
  from assms(4) have "0 \<le> fd" by (auto dest: lookup_Some_nonneg)
  with assms close_sites [OF assms(3)] show ?thesis
    unfolding cur_open_def up_open_def
    apply (elim disjE conjE)
    apply (simp_all add: code_defs pc_preds closed_preds lookup_close)
    apply auto
    done
qed

lemma up_open_close:
  assumes "cur_open K j P" "up_open j P" "call P = Sys_close fd" "lookup (ofile P) fd \<noteq> None"
    "j = 0 \<longrightarrow> \<not> child_pc (pc P)" "j \<noteq> 0 \<longrightarrow> \<not> main_pc (pc P)" 
  shows "up_open j ((resume N P 0 (0, 0))\<lparr>ofile := (ofile P)[nat fd := None]\<rparr>)"
proof -
  from assms(4) have "0 \<le> fd" by (auto dest: lookup_Some_nonneg)
  with assms close_sites [OF assms(3)] show ?thesis
    unfolding cur_open_def up_open_def
    apply (elim disjE conjE)
    apply (simp_all add: code_defs pc_preds closed_preds lookup_close)
    apply auto
    done
qed

lemma lookup_fdalloc [simp]: "lookup fs (int (fdalloc fs)) = None"
  using fdalloc_le [of fs] fdalloc_free [of fs] by (auto simp: lookup_def)

lemma lookup_install_old:
  "lookup fs fd = Some e \<Longrightarrow> lookup (install fs (fdalloc fs) e') fd = Some e"
  by (auto simp: lookup_install)

lemma lookup_install_new [simp]:
  "lookup (install fs (fdalloc fs) e') (int (fdalloc fs)) = Some e'"
  by (simp add: lookup_install)

lemma cur_open_frame [simp]:
  "cur_open K j (P\<lparr>pstate := UNUSED\<rparr>) = True"
  "cur_open K j (P\<lparr>ofile := [], pstate := ZOMBIE st\<rparr>) = True"
  "up_open j (P\<lparr>pstate := UNUSED\<rparr>) = True"
  "up_open j (P\<lparr>ofile := [], pstate := ZOMBIE st\<rparr>) = True"
  by (simp_all add: cur_open_def up_open_def)

lemma inv_fds_upd:
  assumes "inv_fds s" "p < length (procs s)"
    "cur_open (length (pipes s)) p P'" "up_open p P'"
    "procs s1 = (procs s)[p := P']" "length (pipes s1) = length (pipes s)"
  shows "inv_fds s1"
  using assms by (simp add: inv_fds_def nth_list_update)

lemma inv_fdsD:
  assumes "inv_fds s" "p < length (procs s)"
  shows "cur_open (length (pipes s)) p (procs s ! p)" "up_open p (procs s ! p)"
  using assms by (simp_all add: inv_fds_def)

lemma inv_chainD:
  assumes "inv_chain s" "p < length (procs s)"
  shows "chain_ok (length (pipes s)) (length (procs s)) p (procs s ! p)"
    "length (procs s) \<le> length (pipes s) + 1" "length (pipes s) \<le> length (procs s)"
  using assms by (simp_all add: inv_chain_def)

lemma chain_okD:
  assumes "chain_ok K L j P"
  shows "j = 0 \<longrightarrow> \<not> child_pc (pc P)" "j \<noteq> 0 \<longrightarrow> \<not> main_pc (pc P)" "fresh (pc P) \<longrightarrow> \<not> j < K"
  using assms by (auto simp: chain_ok_def)

lemma inv_fds_step:
  assumes ch: "inv_chain s" and inv: "inv_fds s" and st: "kstep N s l = Some s1"
  shows "inv_fds s1"
  using st
proof (cases rule: kstep_elim)
  case (k_local p ok rv d lns)
  then have lr: "local_ret s p ok rv d lns" by (simp add: local_ret_def)
  note c = inv_chainD [OF ch k_local(2)] and f = inv_fdsD [OF inv k_local(2)]
  from local_ret_pc [OF lr] have rv: "pc (procs s ! p) = L71_test \<longrightarrow> rv < 0" "pc (procs s ! p) = L78_fork \<longrightarrow> rv \<noteq> 0"
    by auto
  have "cur_open (length (pipes s)) p (resume N (procs s ! p) rv d)"
    using f(1) chain_okD(3) [OF c(1)] rv by (intro cur_open_resume) auto
  moreover have "up_open p (resume N (procs s ! p) rv d)"
    using f(2) rv by (intro up_open_resume) auto
  ultimately show ?thesis
    by (intro inv_fds_upd [OF inv k_local(2)]) (simp_all add: k_local(4))
next
  case (k_close p ok fd)
  note c = inv_chainD [OF ch k_close(2)] and f = inv_fdsD [OF inv k_close(2)]
  note cd = chain_okD [OF c(1)]
  show ?thesis
    using cur_open_close [OF f k_close(4,5) cd(1,3)] up_open_close [OF f k_close(4,5) cd(1,2)]
    by (intro inv_fds_upd [OF inv k_close(2)]) (simp_all add: k_close(6) resume_ofile_upd)
next
  case (k_pipe p)
  let ?K = "length (pipes s)" and ?L = "length (procs s)" and ?P = "procs s ! p"
  note c = inv_chainD [OF ch k_pipe(2)] and f = inv_fdsD [OF inv k_pipe(2)]
  from k_pipe(4) have pc: "pc ?P = L71_test" "PIPE_WRITE (cursor ?P) = PIPE_INVALID"
    by (auto simp: call_iffs)
  from chain_ok_at_pipe [OF c(1) pc k_pipe(2) c(2)] have pK: "p = ?K" "?L = ?K + 1" by auto
  define r where "r = fdalloc (ofile ?P)"
  define w where "w = fdalloc (install (ofile ?P) r (Pipe_read ?K))"
  define fs where "fs = install (install (ofile ?P) r (Pipe_read ?K)) w (Pipe_write ?K)"
  have s1: "procs s1 = (procs s)[p := ?P\<lparr>ofile := fs, cursor := (int r, int w), pc := L78_fork\<rparr>]"
     "pipes s1 = pipes s @ [[]]"
    using pc k_pipe(2) by (simp_all add: k_pipe(5) ret_def sys_pipe_def Let_def resume_def r_def w_def fs_def)
  have rw: "lookup fs (int r) = Some (Pipe_read ?K)" "lookup fs (int w) = Some (Pipe_write ?K)"
    unfolding fs_def w_def r_def by (simp_all add: lookup_install_old)
  have old: "lookup fs fd = Some e" if "lookup (ofile ?P) fd = Some e" for fd e
    unfolding fs_def w_def r_def using that by (simp add: lookup_install_old)
  have "cur_open (Suc ?K) j (procs s1 ! j) \<and> up_open j (procs s1 ! j)" if "j < ?L" for j
  proof (cases "j = p")
    case True
    with f pc pK k_pipe(2) rw show ?thesis
      by (auto simp: s1 cur_open_def up_open_def pc_preds closed_preds PIPE_READ_def PIPE_WRITE_def intro: old)
  next
    case False
    with that pK have "j < ?K" by simp
    with inv_fdsD [OF inv that] False show ?thesis
      by (simp add: s1 cur_open_def)
  qed
  then show ?thesis
    by (simp add: inv_fds_def s1)
next
  case (k_fork p)
  let ?K = "length (pipes s)" and ?L = "length (procs s)" and ?P = "procs s ! p"
  note c = inv_chainD [OF ch k_fork(2)] and f = inv_fdsD [OF inv k_fork(2)]
  from k_fork(4) have pc: "pc ?P = L78_fork" by (auto simp: call_iffs)
  with c have pL: "p + 1 = ?L" "?K = ?L" by (auto simp: chain_ok_def)
  have s1: "procs s1 = (procs s)[p := resume N ?P (int ?L) (0, 0)]
        @ [?P\<lparr>role := Stage, n := val ?P, pipe_left := cursor ?P, pc := L81_close, parent := Some p\<rparr>]"
     "pipes s1 = pipes s"
    using pc k_fork(2) by (auto simp: k_fork(5) sys_fork_def Let_def resume_def)
  have "cur_open ?K j (procs s1 ! j) \<and> up_open j (procs s1 ! j)" if j: "j < Suc ?L" for j
  proof -
    consider "j = p" | "j = ?L" | "j + 1 < ?L" using j pL by linarith
    then show ?thesis
    proof cases
      case 1
      have "cur_open ?K p (resume N ?P (int ?L) (0, 0))"
        using f(1) chain_okD(3) [OF c(1)] pc pL by (intro cur_open_resume) auto
      moreover have "up_open p (resume N ?P (int ?L) (0, 0))"
        using f(2) pc pL by (intro up_open_resume) auto
      ultimately show ?thesis using 1 k_fork(2)
        by (simp add: s1 nth_append)
    next
      case 2
      with f pc pL k_fork(2) k_fork(3) show ?thesis
        by (auto simp: s1 nth_append cur_open_def up_open_def pc_preds closed_preds PIPE_READ_def PIPE_WRITE_def)
    next
      case 3
      with inv_fdsD [of s j] inv pL show ?thesis
        by (simp add: s1 nth_append)
    qed
  qed
  then show ?thesis
    by (simp add: inv_fds_def s1)
next
  case (k_read p ok fd q v vs)
  note c = inv_chainD [OF ch k_read(2)] and f = inv_fdsD [OF inv k_read(2)]
  from k_read(4) have pc: "pc (procs s ! p) = L91_read" by (auto simp: call_iffs)
  have "cur_open (length (pipes s)) p (resume N (procs s ! p) 4 (v, 0))"
    using f(1) chain_okD(3) [OF c(1)] pc by (intro cur_open_resume) auto
  moreover have "up_open p (resume N (procs s ! p) 4 (v, 0))"
    using f(2) pc by (intro up_open_resume) auto
  ultimately show ?thesis
    by (intro inv_fds_upd [OF inv k_read(2)]) (simp_all add: k_read(8))
next
  case (k_write p ok fd q v)
  note c = inv_chainD [OF ch k_write(2)] and f = inv_fdsD [OF inv k_write(2)]
  from k_write(4) have pc: "pc (procs s ! p) = L71_test" "PIPE_WRITE (cursor (procs s ! p)) \<noteq> PIPE_INVALID"
    by (auto simp: call_iffs)
  have "cur_open (length (pipes s)) p (resume N (procs s ! p) 4 (0, 0))"
    using f(1) chain_okD(3) [OF c(1)] pc by (intro cur_open_resume) auto
  moreover have "up_open p (resume N (procs s ! p) 4 (0, 0))"
    using f(2) pc by (intro up_open_resume) auto
  ultimately show ?thesis
    by (intro inv_fds_upd [OF inv k_write(2)]) (simp_all add: k_write(8))
next
  case (k_reap p ok c cs)
  let ?s = "set_proc c ((procs s ! c)\<lparr>pstate := UNUSED\<rparr>) s"
  from reap_child [OF k_reap(5)] have cL: "c < length (procs s)" by simp
  have is1: "inv_fds ?s"
    by (intro inv_fds_upd [OF inv cL]) simp_all
  have ic1: "inv_chain ?s"
    using inv_chainD(1) [OF ch cL] by (intro inv_chain_upd [OF ch cL]) simp_all
  have pL: "p < length (procs ?s)" using k_reap(2) by simp
  note c = inv_chainD [OF ic1 pL] and f = inv_fdsD [OF is1 pL]
  from k_reap(4) have pc: "pc (procs ?s ! p) \<noteq> L78_fork" "pc (procs ?s ! p) \<noteq> L71_test"
    using cL k_reap(2) by (auto simp: call_iffs nth_list_update)
  have "cur_open (length (pipes ?s)) p (resume N (procs ?s ! p) (int c) (0, 0))"
    using f(1) chain_okD(3) [OF c(1)] pc by (intro cur_open_resume) auto
  moreover have "up_open p (resume N (procs ?s ! p) (int c) (0, 0))"
    using f(2) pc by (intro up_open_resume) auto
  ultimately show ?thesis
    by (intro inv_fds_upd [OF is1 pL]) (simp_all add: k_reap(6) ret_def)
next
  case (k_exit p ok st)
  show ?thesis
    by (intro inv_fds_upd [OF inv k_exit(2)]) (simp_all add: k_exit(5) sys_exit_def)
qed

lemma inv_exit_init: "inv_exit init"
  by (simp add: inv_exit_def exit_ok_def init_def exit_pc_def done_below_def)

lemma inv_exitD:
  assumes "inv_exit s" "j < length (procs s)"
  shows "pstate (procs s ! j) \<noteq> RUNNING \<Longrightarrow> exit_pc (pc (procs s ! j)) \<or> pc (procs s ! j) = L_exit1"
    "pc (procs s ! j) = L_exit1 \<Longrightarrow> j + 1 = length (procs s)"
    "pstate (procs s ! j) \<noteq> RUNNING \<or> exit_pc (pc (procs s ! j)) \<Longrightarrow> done_below s j"
  using assms by (auto simp: inv_exit_def exit_ok_def)

text \<open>a step that changes only the locals of the running process p\<close>

lemma inv_exit_upd:
  assumes inv: "inv_exit s" and p: "p < length (procs s)" "pstate (procs s ! p) = RUNNING"
    and s1: "procs s1 = (procs s)[p := P']" "pstate P' = RUNNING"
    and x1: "pc P' = L_exit1 \<longrightarrow> p + 1 = length (procs s)"
    and ex: "exit_pc (pc P') \<longrightarrow> done_below s p"
  shows "inv_exit s1"
proof -
  have ps: "pstate (procs s1 ! m) = pstate (procs s ! m)" if "m < length (procs s)" for m
    using that p s1 by (cases "m = p") (simp_all add: s1)
  have db: "done_below s1 j = done_below s j" for j
    using ps by (auto simp: done_below_def s1)
  have "exit_ok s1 j" if j: "j < length (procs s)" for j
  proof (cases "j = p")
    case True
    with p s1 x1 ex show ?thesis by (simp add: exit_ok_def db)
  next
    case False
    with inv j have "exit_ok s j" by (simp add: inv_exit_def)
    with False show ?thesis by (simp add: exit_ok_def db s1)
  qed
  then show ?thesis by (simp add: inv_exit_def s1)
qed

lemma resume_pc_exit1:
  assumes "pc (resume N P rv d) = L_exit1"
  shows "pc P = L_exit1 \<or> pc P = L74_printf \<or> pc P = L113_printf
     \<or> pc P = L71_test \<and> PIPE_WRITE (cursor P) \<noteq> PIPE_INVALID \<and> rv \<le> 0"
  using assms by (cases "pc P") (auto simp: code_defs split: if_splits role.splits)

lemma resume_pc_exit0:
  assumes "exit_pc (pc (resume N P rv d))"
  shows "exit_pc (pc P) \<or> pc P = L154_wait \<or> pc P = L108_wait"
  using assms by (cases "pc P") (auto simp: code_defs exit_pc_def split: if_splits role.splits)

lemma lookup_in_set: "lookup fs fd = Some e \<Longrightarrow> Some e \<in> set fs"
  by (metis lookup_def nth_mem option.distinct(1))

lemma in_set_lookup: "Some e \<in> set fs \<Longrightarrow> \<exists>fd. lookup fs fd = Some e"
proof -
  assume "Some e \<in> set fs"
  then obtain i where "i < length fs" "fs ! i = Some e" by (auto simp: in_set_conv_nth)
  then have "lookup fs (int i) = Some e" by (simp add: lookup_def)
  then show ?thesis ..
qed

lemma write_succeeds:
  assumes ch: "inv_chain s" and fd: "inv_fds s" and p: "p < length (procs s)" "pstate (procs s ! p) = RUNNING"
    and pc: "pc (procs s ! p) = L71_test" "PIPE_WRITE (cursor (procs s ! p)) \<noteq> PIPE_INVALID"
  shows "sys_write p (PIPE_WRITE (cursor (procs s ! p))) v s
     = (4, s\<lparr>pipes := (pipes s)[p := pipes s ! p @ [v]]\<rparr>) \<and> p < length (pipes s)"
proof -
  note c = inv_chainD [OF ch p(1)] and f = inv_fdsD [OF fd p(1)]
  from c(1) pc have pK: "p < length (pipes s)"
    by (cases "p < length (pipes s)") (auto simp: chain_ok_def pc_preds code_defs)
  with f(1) p pc have lk: "lookup (ofile (procs s ! p)) (PIPE_READ (cursor (procs s ! p))) = Some (Pipe_read p)"
     "lookup (ofile (procs s ! p)) (PIPE_WRITE (cursor (procs s ! p))) = Some (Pipe_write p)"
    by (auto simp: cur_open_def pc_preds closed_preds)
  from lk(1) have "Some (Pipe_read p) \<in> set (ofile (procs s ! p))"
    by (rule lookup_in_set)
  with p have "readers s p" by (auto simp: readers_def)
  with lk pK show ?thesis by (simp add: sys_write_def)
qed

lemma child_is_next:
  assumes "inv_chain s" "c < length (procs s)" "parent (procs s ! c) = Some p"
  shows "c = p + 1"
  using inv_chainD(1) [OF assms(1,2)] assms(3) by (cases "c = 0") (auto simp: chain_ok_def)

lemma children_Nil:
  assumes ch: "inv_chain s" and inv: "inv_exit s" and p: "p < length (procs s)" and n: "children s p = []"
  shows "done_below s p"
proof (cases "p + 1 < length (procs s)")
  case True
  with inv_chainD(1) [OF ch True] have "parent (procs s ! (p + 1)) = Some p"
    by (simp add: chain_ok_def)
  with n True have u: "pstate (procs s ! (p + 1)) = UNUSED"
    by (auto simp: children_def filter_empty_conv)
  with inv_exitD(3) [OF inv True] have "done_below s (p + 1)" by simp
  have "pstate (procs s ! m) = UNUSED" if m: "p < m" "m < length (procs s)" for m
  proof (cases "m = p + 1")
    case True
    with u show ?thesis by simp
  next
    case False
    with m have "p + 1 < m" by simp
    with \<open>done_below s (p + 1)\<close> m show ?thesis by (simp add: done_below_def)
  qed
  then show ?thesis by (simp add: done_below_def)
next
  case False
  then show ?thesis by (auto simp: done_below_def)
qed

lemma inv_exit_step:
  assumes ch: "inv_chain s" and fd: "inv_fds s" and inv: "inv_exit s" and st: "kstep N s l = Some s1"
  shows "inv_exit s1"
  using st
proof (cases rule: kstep_elim)
  case (k_local p ok rv d lns)
  then have lr: "local_ret s p ok rv d lns" by (simp add: local_ret_def)
  let ?P = "procs s ! p"
  note c = inv_chainD [OF ch k_local(2)]
  have x1: "p + 1 = length (procs s)" if "pc (resume N ?P rv d) = L_exit1"
  proof -
    from resume_pc_exit1 [OF that] local_ret_pc [OF lr]
    consider "pc ?P = L74_printf" | "pc ?P = L113_printf"
      | "pc ?P = L71_test" "PIPE_WRITE (cursor ?P) \<noteq> PIPE_INVALID" by auto
    then show ?thesis
    proof cases
      case 1
      with c k_local(2) show ?thesis by (auto simp: chain_ok_def)
    next
      case 2
      with c show ?thesis by (auto simp: chain_ok_def)
    next
      case 3
      from write_succeeds [OF ch fd k_local(2,3) 3] lr 3 have False
        by (auto simp: local_ret_def call_iffs)
      then show ?thesis ..
    qed
  qed
  have ex: "done_below s p" if "exit_pc (pc (resume N ?P rv d))"
  proof -
    from resume_pc_exit0 [OF that] local_ret_pc [OF lr]
    have "call ?P = Sys_wait" by (auto simp: call_iffs exit_pc_def)
    with lr have "children s p = []" by (auto simp: local_ret_def)
    then show ?thesis by (rule children_Nil [OF ch inv k_local(2)])
  qed
  show ?thesis
    using x1 ex k_local(3)
    by (intro inv_exit_upd [OF inv k_local(2,3), where P' = "resume N ?P rv d"]) (simp_all add: k_local(4))
next
  case (k_close p ok fd)
  let ?P = "procs s ! p"
  from close_sites [OF k_close(4)]
  have "pc (resume N ?P 0 (0, 0)) \<noteq> L_exit1" "\<not> exit_pc (pc (resume N ?P 0 (0, 0)))"
    by (auto simp: resume_def exit_pc_def)
  then show ?thesis using k_close(3)
    by (intro inv_exit_upd [OF inv k_close(2,3), where P' = "resume N (?P\<lparr>ofile := (ofile ?P)[nat fd := None]\<rparr>) 0 (0, 0)"])
       (simp_all add: k_close(6) resume_ofile_upd)
next
  case (k_pipe p)
  let ?P = "procs s ! p"
  from k_pipe(4) have pc: "pc ?P = L71_test" "PIPE_WRITE (cursor ?P) = PIPE_INVALID"
    by (auto simp: call_iffs)
  have s1: "procs s1 = (procs s)[p := resume N (?P\<lparr>ofile := ofile (procs (snd (sys_pipe p s)) ! p)\<rparr>) 0 (fst (sys_pipe p s))]"
    using k_pipe(2) by (simp add: k_pipe(5) ret_def sys_pipe_def Let_def)
  show ?thesis
    using pc k_pipe(3)
    by (intro inv_exit_upd [OF inv k_pipe(2,3) s1]) (simp_all add: resume_def exit_pc_def)
next
  case (k_fork p)
  let ?L = "length (procs s)" and ?P = "procs s ! p"
  note c = inv_chainD [OF ch k_fork(2)]
  from k_fork(4) have pc: "pc ?P = L78_fork" by (auto simp: call_iffs)
  with c have pL: "p + 1 = ?L" by (auto simp: chain_ok_def)
  have s1: "procs s1 = (procs s)[p := resume N ?P (int ?L) (0, 0)] @ [(resume N ?P 0 (0, 0))\<lparr>parent := Some p\<rparr>]"
    by (simp add: k_fork(5) sys_fork_def Let_def)
  have pcs: "pc (resume N ?P (int ?L) (0, 0)) \<noteq> L_exit1" "\<not> exit_pc (pc (resume N ?P (int ?L) (0, 0)))"
     "pc (resume N ?P 0 (0, 0)) = L81_close"
    using pc pL by (auto simp: code_defs exit_pc_def split: role.splits)
  have run: "pstate (procs s ! j) = RUNNING \<and> \<not> exit_pc (pc (procs s ! j)) \<and> pc (procs s ! j) \<noteq> L_exit1"
    if j: "j < p" for j
  proof -
    from j pL have jL: "j < ?L" by simp
    { assume "pstate (procs s ! j) \<noteq> RUNNING \<or> exit_pc (pc (procs s ! j))"
      from inv_exitD(3) [OF inv jL this] j k_fork(2,3) have False by (auto simp: done_below_def) }
    moreover
    { assume "pc (procs s ! j) = L_exit1"
      from inv_exitD(2) [OF inv jL this] j pL have False by simp }
    ultimately show ?thesis by blast
  qed
  have "exit_ok s1 j" if j: "j < Suc ?L" for j
  proof -
    consider "j = p" | "j = ?L" | "j < p" using j pL by linarith
    then show ?thesis
    proof cases
      case 1
      with pcs k_fork(2,3) show ?thesis
        by (simp add: exit_ok_def s1 nth_append)
    next
      case 2
      with pcs k_fork(2,3) show ?thesis
        by (simp add: exit_ok_def s1 nth_append exit_pc_def)
    next
      case 3
      with run [OF 3] pL show ?thesis
        by (simp add: exit_ok_def s1 nth_append)
    qed
  qed
  then show ?thesis by (simp add: inv_exit_def s1)
next
  case (k_read p ok fd q v vs)
  let ?P = "procs s ! p"
  from k_read(4) have pc: "pc ?P = L91_read" by (auto simp: call_iffs)
  have s1: "procs s1 = (procs s)[p := resume N ?P 4 (v, 0)]" by (simp add: k_read(8))
  show ?thesis
    using pc k_read(3)
    by (intro inv_exit_upd [OF inv k_read(2,3) s1]) (simp_all add: resume_def exit_pc_def)
next
  case (k_write p ok fd q v)
  let ?P = "procs s ! p"
  from k_write(4) have pc: "pc ?P = L71_test" "PIPE_WRITE (cursor ?P) \<noteq> PIPE_INVALID" by (auto simp: call_iffs)
  have s1: "procs s1 = (procs s)[p := resume N ?P 4 (0, 0)]" by (simp add: k_write(8))
  show ?thesis
    using pc k_write(3)
    by (intro inv_exit_upd [OF inv k_write(2,3) s1]) (auto simp: code_defs exit_pc_def split: role.splits)
next
  case (k_reap p ok c cs)
  let ?L = "length (procs s)" and ?P = "procs s ! p"
  note rc = reap_child [OF k_reap(5)]
  then have cL: "c < ?L" and cp: "c = p + 1" using child_is_next [OF ch] by auto
  from rc have cz: "pstate (procs s ! c) \<noteq> RUNNING" by auto
  from k_reap(4) have pc: "pc ?P = L154_wait \<or> pc ?P = L108_wait" by (auto simp: call_iffs)
  have s1: "procs s1 = (procs s)[c := (procs s ! c)\<lparr>pstate := UNUSED\<rparr>, p := resume N ?P (int c) (0, 0)]"
    using cp cL by (simp add: k_reap(6) ret_def)
  have pcs: "pc (resume N ?P (int c) (0, 0)) \<noteq> L_exit1" "pstate (resume N ?P (int c) (0, 0)) = RUNNING"
    using pc k_reap(3) by (auto simp: resume_def)
  have dbc: "done_below s c" using inv_exitD(3) [OF inv cL] cz by simp
  have ps: "pstate (procs s1 ! m) = (if m = c then UNUSED else pstate (procs s ! m))" if "m < ?L" for m
    using that cp cL k_reap(2) pcs by (auto simp: s1 nth_list_update)
  have db: "done_below s1 j" if "done_below s j" "j < ?L" for j
    using that ps by (auto simp: done_below_def s1)
  have "pstate (procs s1 ! m) = UNUSED" if m: "p < m" "m < ?L" for m
  proof (cases "m = c")
    case True
    with ps [OF m(2)] show ?thesis by simp
  next
    case False
    with m cp have "c < m" by simp
    with dbc m ps [OF m(2)] False show ?thesis by (simp add: done_below_def)
  qed
  then have dbp: "done_below s1 p" by (simp add: done_below_def s1)
  have "exit_ok s1 j" if j: "j < ?L" for j
  proof -
    from inv j have e: "exit_ok s j" by (simp add: inv_exit_def)
    consider "j = p" | "j = c" | "j \<noteq> p" "j \<noteq> c" by blast
    then show ?thesis
    proof cases
      case 1
      with pcs dbp cp cL show ?thesis by (simp add: exit_ok_def s1)
    next
      case 2
      with e cz cp cL db [of c] show ?thesis by (simp add: exit_ok_def s1)
    next
      case 3
      with e j db [of j] ps [OF j] show ?thesis by (auto simp: exit_ok_def s1)
    qed
  qed
  then show ?thesis by (simp add: inv_exit_def s1)
next
  case (k_exit p ok st)
  let ?L = "length (procs s)" and ?P = "procs s ! p"
  have s1: "procs s1 = (procs s)[p := ?P\<lparr>ofile := [], pstate := ZOMBIE st\<rparr>]"
    by (simp add: k_exit(5) sys_exit_def)
  from k_exit(4) have pc: "exit_pc (pc ?P) \<or> pc ?P = L_exit1" by (auto simp: call_iffs exit_pc_def)
  have dbp: "done_below s p"
  proof (cases "exit_pc (pc ?P)")
    case True
    then show ?thesis using inv_exitD(3) [OF inv k_exit(2)] by simp
  next
    case False
    with pc inv_exitD(2) [OF inv k_exit(2)] show ?thesis by (auto simp: done_below_def)
  qed
  have ps: "pstate (procs s1 ! m) = UNUSED \<longleftrightarrow> pstate (procs s ! m) = UNUSED" if "m < ?L" for m
    using that k_exit(2,3) by (auto simp: s1 nth_list_update)
  have db: "done_below s1 j = done_below s j" for j
    using ps by (auto simp: done_below_def s1)
  have "exit_ok s1 j" if j: "j < ?L" for j
  proof (cases "j = p")
    case True
    with pc dbp k_exit(2) inv_exitD(2) [OF inv k_exit(2)] show ?thesis
      by (auto simp: exit_ok_def s1 db)
  next
    case False
    with inv j have "exit_ok s j" by (simp add: inv_exit_def)
    with False show ?thesis by (simp add: exit_ok_def s1 db)
  qed
  then show ?thesis by (simp add: inv_exit_def s1)
qed

section \<open>Teardown only after the upstream is exhausted\<close>

lemma inv_teardown_init: "inv_teardown N init"
  by (simp add: inv_teardown_def teardown_ok_def init_def main_teardown_def)

lemma read_upstream:
  assumes ch: "inv_chain s" and fd: "inv_fds s" and p: "p < length (procs s)" "pstate (procs s ! p) = RUNNING"
    and pc: "pc (procs s ! p) = L91_read"
  shows "p \<noteq> 0" "p - 1 < length (pipes s)"
    "lookup (ofile (procs s ! p)) (PIPE_READ (pipe_left (procs s ! p))) = Some (Pipe_read (p - 1))"
proof -
  note c = inv_chainD [OF ch p(1)] and f = inv_fdsD [OF fd p(1)]
  show p0: "p \<noteq> 0"
  proof
    assume "p = 0"
    with chain_okD(1) [OF c(1)] have "\<not> child_pc (pc (procs s ! p))" by simp
    with pc show False by (simp add: pc_preds)
  qed
  with p c show "p - 1 < length (pipes s)" by simp
  from f(2) p0 p pc show "lookup (ofile (procs s ! p)) (PIPE_READ (pipe_left (procs s ! p))) = Some (Pipe_read (p - 1))"
    by (simp add: up_open_def closed_preds)
qed

lemma no_writers_gone:
  assumes ch: "inv_chain s" and fd: "inv_fds s" and j: "j \<noteq> 0" "j < length (procs s)"
    and nw: "\<not> writers s (j - 1)"
  shows "writer_gone s (j - 1)"
proof -
  from j have q: "j - 1 < length (procs s)" by simp
  note c = inv_chainD [OF ch q] and f = inv_fdsD [OF fd q]
  from inv_chainD(2) [OF ch j(2)] j have qK: "j - 1 < length (pipes s)" by simp
  { assume r: "pstate (procs s ! (j - 1)) = RUNNING" and nc: "\<not> w_closed (pc (procs s ! (j - 1)))"
    from c(1) qK have "\<not> fresh (pc (procs s ! (j - 1)))" by (auto simp: chain_ok_def)
    with f(1) r nc qK have "lookup (ofile (procs s ! (j - 1))) (PIPE_WRITE (cursor (procs s ! (j - 1)))) = Some (Pipe_write (j - 1))"
      by (simp add: cur_open_def)
    then have "Some (Pipe_write (j - 1)) \<in> set (ofile (procs s ! (j - 1)))" by (rule lookup_in_set)
    with q have "writers s (j - 1)" by (auto simp: writers_def)
    with nw have False by simp }
  then show ?thesis by (auto simp: writer_gone_def)
qed

lemma write_end:
  assumes ch: "inv_chain s" and fd: "inv_fds s" and p: "p < length (procs s)" "pstate (procs s ! p) = RUNNING"
    and pc: "pc (procs s ! p) = L71_test" "PIPE_WRITE (cursor (procs s ! p)) \<noteq> PIPE_INVALID"
  shows "lookup (ofile (procs s ! p)) (PIPE_WRITE (cursor (procs s ! p))) = Some (Pipe_write p)"
proof -
  note c = inv_chainD [OF ch p(1)] and f = inv_fdsD [OF fd p(1)]
  from c(1) pc have pK: "p < length (pipes s)"
    by (cases "p < length (pipes s)") (auto simp: chain_ok_def pc_preds code_defs)
  with f(1) p pc show ?thesis
    by (auto simp: cur_open_def pc_preds closed_preds)
qed

text \<open>what a step does to the pipes\<close>

lemma kstep_pipes:
  assumes ch: "inv_chain s" and fd: "inv_fds s" and st: "kstep N s l = Some s1"
  shows "pipes s1 = pipes s
     \<or> pc (procs s ! fst l) = L71_test \<and> pipes s1 = pipes s @ [[]]
     \<or> (\<exists>v vs. fst l \<noteq> 0 \<and> pc (procs s ! fst l) = L91_read \<and> pipes s ! (fst l - 1) = v # vs
          \<and> pipes s1 = (pipes s)[fst l - 1 := vs])
     \<or> (pc (procs s ! fst l) = L71_test \<and> fst l < length (pipes s)
          \<and> pipes s1 = (pipes s)[fst l := pipes s ! fst l @ [val (procs s ! fst l)]])"
  using st
proof (cases rule: kstep_elim)
  case (k_pipe p)
  then show ?thesis by (simp add: ret_def sys_pipe_def Let_def call_iffs)
next
  case (k_fork p)
  then show ?thesis by (simp add: sys_fork_def Let_def)
next
  case (k_read p ok fd' q v vs)
  from k_read(4) have pc: "pc (procs s ! p) = L91_read" "fd' = PIPE_READ (pipe_left (procs s ! p))"
    by (auto simp: call_iffs)
  from read_upstream [OF ch fd k_read(2,3) pc(1)] k_read(5) pc(2) have "p \<noteq> 0" "q = p - 1" by auto
  with k_read pc show ?thesis by simp
next
  case (k_write p ok fd' q v)
  from k_write(4) have pc: "pc (procs s ! p) = L71_test" "PIPE_WRITE (cursor (procs s ! p)) \<noteq> PIPE_INVALID"
     "fd' = PIPE_WRITE (cursor (procs s ! p))" "v = val (procs s ! p)"
    by (auto simp: call_iffs)
  from write_end [OF ch fd k_write(2,3) pc(1,2)] k_write(5,6) pc(3)
  have "q = p" "p < length (pipes s)" by auto
  with k_write pc show ?thesis by simp
next
  case (k_reap p ok c cs)
  then show ?thesis by (simp add: ret_def)
qed (simp_all add: sys_exit_def)

text \<open>what a step does to the processes\<close>

lemma same_locals_simps [simp]:
  "same_locals P P"
  "same_locals (P\<lparr>ofile := fs\<rparr>) Q = same_locals P Q"
  "same_locals (P\<lparr>pstate := st\<rparr>) Q = same_locals P Q"
  by (simp_all add: same_locals_def)

lemma kstep_self:
  assumes "kstep N s l = Some s1"
  shows "\<exists>rv d. same_locals (procs s1 ! fst l) (resume N (procs s ! fst l) rv d)
      \<and> (pc (procs s ! fst l) = L91_read \<and> rv \<le> 0 \<longrightarrow>
           sys_read (fst l) (PIPE_READ (pipe_left (procs s ! fst l))) s = Some ((rv, fst d), s))
      \<and> (pc (procs s ! fst l) = L78_fork \<longrightarrow> rv \<noteq> 0)"
  using assms
proof (cases rule: kstep_elim)
  case (k_local p ok rv d lns)
  then have "same_locals (procs s1 ! fst l) (resume N (procs s ! fst l) rv d)" by simp
  moreover from k_local(5) have "pc (procs s ! p) = L91_read \<and> rv \<le> 0 \<longrightarrow>
           sys_read p (PIPE_READ (pipe_left (procs s ! p))) s = Some ((rv, fst d), s)"
    by (auto simp: call_iffs)
  moreover from k_local(5) have "pc (procs s ! p) = L78_fork \<longrightarrow> rv \<noteq> 0"
    by (auto simp: call_iffs)
  ultimately show ?thesis using k_local(1)
    by (intro exI [of _ rv] exI [of _ d]) simp
next
  case (k_close p ok fd)
  then have "same_locals (procs s1 ! fst l) (resume N (procs s ! fst l) 0 (0, 0))"
    by (simp add: resume_ofile_upd)
  moreover from k_close(4) have "pc (procs s ! p) \<noteq> L91_read" "pc (procs s ! p) \<noteq> L78_fork"
    by (auto simp: call_iffs)
  ultimately show ?thesis using k_close(1)
    by (intro exI [of _ 0] exI [of _ "(0, 0)"]) simp
next
  case (k_pipe p)
  then have "same_locals (procs s1 ! fst l) (resume N (procs s ! fst l) 0 (fst (sys_pipe p s)))"
    by (simp add: ret_def sys_pipe_def Let_def resume_ofile_upd)
  moreover from k_pipe(4) have "pc (procs s ! p) \<noteq> L91_read" "pc (procs s ! p) \<noteq> L78_fork"
    by (auto simp: call_iffs)
  ultimately show ?thesis using k_pipe(1)
    by (intro exI [of _ 0] exI [of _ "fst (sys_pipe p s)"]) simp
next
  case (k_fork p)
  then have "same_locals (procs s1 ! fst l) (resume N (procs s ! fst l) (int (length (procs s))) (0, 0))"
    by (simp add: sys_fork_def Let_def nth_append)
  moreover from k_fork(4) have "pc (procs s ! p) \<noteq> L91_read" by (auto simp: call_iffs)
  moreover from k_fork(2) have "int (length (procs s)) \<noteq> 0" by auto
  ultimately show ?thesis using k_fork(1)
    by (intro exI [of _ "int (length (procs s))"] exI [of _ "(0, 0)"]) simp
next
  case (k_read p ok fd q v vs)
  then have "same_locals (procs s1 ! fst l) (resume N (procs s ! fst l) 4 (v, 0))" by simp
  moreover from k_read(4) have "pc (procs s ! p) \<noteq> L78_fork" by (auto simp: call_iffs)
  ultimately show ?thesis using k_read(1)
    by (intro exI [of _ 4] exI [of _ "(v, 0)"]) simp
next
  case (k_write p ok fd q v)
  then have "same_locals (procs s1 ! fst l) (resume N (procs s ! fst l) 4 (0, 0))" by simp
  moreover from k_write(4) have "pc (procs s ! p) \<noteq> L91_read" "pc (procs s ! p) \<noteq> L78_fork"
    by (auto simp: call_iffs)
  ultimately show ?thesis using k_write(1)
    by (intro exI [of _ 4] exI [of _ "(0, 0)"]) simp
next
  case (k_reap p ok c cs)
  note rc = reap_child [OF k_reap(5)]
  have "same_locals (procs s1 ! p) (resume N (procs s ! p) (int c) (0, 0))"
    using k_reap(2) rc by (cases "c = p") (simp_all add: k_reap(6) ret_def resume_pstate_upd)
  moreover from k_reap(4) have "pc (procs s ! p) \<noteq> L91_read" "pc (procs s ! p) \<noteq> L78_fork"
    by (auto simp: call_iffs)
  ultimately show ?thesis using k_reap(1)
    by (intro exI [of _ "int c"] exI [of _ "(0, 0)"]) simp
next
  case (k_exit p ok st)
  from k_exit(4) have pc: "pc (procs s ! p) = L156_return \<or> pc (procs s ! p) = L109_exit \<or> pc (procs s ! p) = L_exit1"
    by (auto simp: call_iffs)
  then have "resume N (procs s ! p) 1 (0, 0) = procs s ! p" by (auto simp: resume_def)
  with k_exit have "same_locals (procs s1 ! fst l) (resume N (procs s ! fst l) 1 (0, 0))"
    by (simp add: sys_exit_def)
  moreover from pc have "pc (procs s ! p) \<noteq> L91_read" "pc (procs s ! p) \<noteq> L78_fork" by auto
  ultimately show ?thesis using k_exit(1)
    by (intro exI [of _ 1] exI [of _ "(0, 0)"]) simp
qed

lemma kstep_other:
  assumes "kstep N s l = Some s1" "m < length (procs s)" "m \<noteq> fst l"
  shows "same_locals (procs s1 ! m) (procs s ! m) \<and> ofile (procs s1 ! m) = ofile (procs s ! m)
    \<and> parent (procs s1 ! m) = parent (procs s ! m)
    \<and> (pstate (procs s1 ! m) = RUNNING \<longleftrightarrow> pstate (procs s ! m) = RUNNING)"
  using assms(1)
proof (cases rule: kstep_elim)
  case (k_local p ok rv d lns)
  with assms(2,3) show ?thesis by simp
next
  case (k_close p ok fd)
  with assms(2,3) show ?thesis by simp
next
  case (k_pipe p)
  with assms(2,3) show ?thesis by (simp add: ret_def sys_pipe_def Let_def)
next
  case (k_fork p)
  with assms(2,3) show ?thesis by (simp add: sys_fork_def Let_def nth_append)
next
  case (k_read p ok fd q v vs)
  with assms(2,3) show ?thesis by simp
next
  case (k_write p ok fd q v)
  with assms(2,3) show ?thesis by simp
next
  case (k_reap p ok c cs)
  note rc = reap_child [OF k_reap(5)]
  from assms(2,3) k_reap(1) rc show ?thesis
    by (cases "m = c") (auto simp: k_reap(6) ret_def nth_list_update)
next
  case (k_exit p ok st)
  with assms(2,3) show ?thesis by (simp add: sys_exit_def)
qed

lemma kstep_length:
  assumes "kstep N s l = Some s1"
  shows "fst l < length (procs s) \<and> pstate (procs s ! fst l) = RUNNING
    \<and> (length (procs s1) = length (procs s) \<or>
     length (procs s1) = Suc (length (procs s)) \<and> pc (procs s1 ! length (procs s)) = L81_close
       \<and> pc (procs s ! fst l) = L78_fork)"
  using assms
proof (cases rule: kstep_elim)
  case (k_pipe p)
  then show ?thesis by (simp add: ret_def sys_pipe_def Let_def)
next
  case (k_fork p)
  then have "pc (procs s ! p) = L78_fork" by (simp add: call_iffs)
  with k_fork show ?thesis by (simp add: sys_fork_def Let_def resume_def nth_append)
next
  case (k_reap p ok c cs)
  then show ?thesis by (simp add: ret_def)
next
  case (k_exit p ok st)
  then show ?thesis by (simp add: sys_exit_def)
qed simp_all

lemma resume_in_teardown:
  assumes "in_teardown (pc (resume N P rv d))"
  shows "in_teardown (pc P) \<or> pc P = L91_read \<and> rv \<le> 0"
  using assms by (cases "pc P") (auto simp: code_defs in_teardown_def split: if_splits role.splits)

lemma resume_main_teardown:
  assumes "main_teardown (pc (resume N P rv d))"
  shows "val (resume N P rv d) = val P \<and> (main_teardown (pc P) \<or> pc P = L139_for \<and> \<not> val P \<le> N)"
  using assms by (cases "pc P") (auto simp: code_defs main_teardown_def split: if_splits role.splits)

lemma resume_w_closed:
  assumes "w_closed (pc P)"
  shows "w_closed (pc (resume N P rv d))"
  using assms by (cases "pc P") (auto simp: code_defs w_closed_def)

lemma pipe_stays_empty:
  assumes ch: "inv_chain s" and fd: "inv_fds s" and st: "kstep N s l = Some s1"
    and j: "j \<noteq> 0" "j < length (procs s)" and e: "pipes s ! (j - 1) = []" "writer_gone s (j - 1)"
  shows "pipes s1 ! (j - 1) = []"
proof -
  from inv_chainD(2) [OF ch j(2)] j have jK: "j - 1 < length (pipes s)" by simp
  note kl = kstep_length [OF st]
  from kstep_pipes [OF ch fd st]
  consider "pipes s1 = pipes s" | "pipes s1 = pipes s @ [[]]"
    | v vs where "pipes s ! (fst l - 1) = v # vs" "pipes s1 = (pipes s)[fst l - 1 := vs]"
    | "pc (procs s ! fst l) = L71_test" "pipes s1 = (pipes s)[fst l := pipes s ! fst l @ [val (procs s ! fst l)]]"
    by blast
  then show ?thesis
  proof cases
    case 1
    with e show ?thesis by simp
  next
    case 2
    with e jK show ?thesis by (simp add: nth_append)
  next
    case 3
    with e have "fst l - 1 \<noteq> j - 1" by auto
    with 3 e show ?thesis by simp
  next
    case 4
    have "fst l \<noteq> j - 1"
    proof
      assume "fst l = j - 1"
      with e(2) kl 4(1) show False by (simp add: writer_gone_def w_closed_def)
    qed
    with 4 e show ?thesis by simp
  qed
qed

lemma writer_stays_gone:
  assumes st: "kstep N s l = Some s1" and q: "q < length (procs s)" and g: "writer_gone s q"
  shows "writer_gone s1 q"
proof (cases "q = fst l")
  case True
  from kstep_length [OF st] True g have "w_closed (pc (procs s ! q))" by (simp add: writer_gone_def)
  moreover from kstep_self [OF st] True obtain rv d
    where "pc (procs s1 ! q) = pc (resume N (procs s ! q) rv d)" by (auto simp: same_locals_def)
  ultimately show ?thesis by (simp add: writer_gone_def resume_w_closed)
next
  case False
  from kstep_other [OF st q False] g show ?thesis by (simp add: writer_gone_def same_locals_def)
qed

lemma read_eof:
  assumes ch: "inv_chain s" and fd: "inv_fds s" and p: "p < length (procs s)" "pstate (procs s ! p) = RUNNING"
    and pc: "pc (procs s ! p) = L91_read"
    and r: "sys_read p (PIPE_READ (pipe_left (procs s ! p))) s = Some ((rv, v), s1)" "rv \<le> 0"
  shows "pipes s ! (p - 1) = []" "\<not> writers s (p - 1)"
  using read_upstream [OF ch fd p pc] r
  by (auto simp: sys_read_def split: list.splits if_splits)

lemma inv_teardown_step:
  assumes ch: "inv_chain s" and fd: "inv_fds s" and inv: "inv_teardown N s" and st: "kstep N s l = Some s1"
  shows "inv_teardown N s1"
proof -
  note kl = kstep_length [OF st]
  from ch have L0: "0 < length (procs s)" by (simp add: inv_chain_def)
  have "teardown_ok N s1 j" if j1: "j < length (procs s1)" for j
  proof (cases "j < length (procs s)")
    case False
    with j1 kl have jj: "j = length (procs s)" by auto
    with False j1 kl have "pc (procs s1 ! j) = L81_close" by auto
    with jj L0 show ?thesis by (simp add: teardown_ok_def in_teardown_def)
  next
    case jL: True
    with inv have old: "teardown_ok N s j" by (simp add: inv_teardown_def)
    show ?thesis
    proof (cases "j = fst l")
      case False
      from kstep_other [OF st jL False]
      have same: "pc (procs s1 ! j) = pc (procs s ! j)" "val (procs s1 ! j) = val (procs s ! j)"
        by (simp_all add: same_locals_def)
      { assume a: "j \<noteq> 0" "in_teardown (pc (procs s ! j))"
        with old have e: "pipes s ! (j - 1) = []" "writer_gone s (j - 1)" by (simp_all add: teardown_ok_def)
        from a jL have "j - 1 < length (procs s)" by simp
        from pipe_stays_empty [OF ch fd st a(1) jL e] writer_stays_gone [OF st this e(2)]
        have "pipes s1 ! (j - 1) = [] \<and> writer_gone s1 (j - 1)" by simp }
      with old same show ?thesis by (auto simp: teardown_ok_def)
    next
      case True
      from kstep_self [OF st] True obtain rv d
        where sl: "same_locals (procs s1 ! j) (resume N (procs s ! j) rv d)"
          and rd: "pc (procs s ! j) = L91_read \<and> rv \<le> 0 \<longrightarrow>
             sys_read j (PIPE_READ (pipe_left (procs s ! j))) s = Some ((rv, fst d), s)"
        by auto
      from sl have same: "pc (procs s1 ! j) = pc (resume N (procs s ! j) rv d)"
        "val (procs s1 ! j) = val (resume N (procs s ! j) rv d)"
        by (simp_all add: same_locals_def)
      { assume a: "j = 0" "main_teardown (pc (procs s1 ! j))"
        from resume_main_teardown [of N "procs s ! j" rv d] a same old
        have "N < val (procs s1 ! j)" by (auto simp: teardown_ok_def) }
      moreover
      { assume a: "j \<noteq> 0" "in_teardown (pc (procs s1 ! j))"
        from a jL have q: "j - 1 < length (procs s)" by simp
        from resume_in_teardown [of N "procs s ! j" rv d] a same
        consider "in_teardown (pc (procs s ! j))" | "pc (procs s ! j) = L91_read" "rv \<le> 0" by auto
        then have "pipes s ! (j - 1) = [] \<and> writer_gone s (j - 1)"
        proof cases
          case 1
          with old a show ?thesis
            by (simp_all add: teardown_ok_def)
        next
          case 2
          with rd have r: "sys_read j (PIPE_READ (pipe_left (procs s ! j))) s = Some ((rv, fst d), s)"
            by simp
          from kl True have run: "pstate (procs s ! j) = RUNNING" by simp
          note re = read_eof [OF ch fd jL run 2(1) r 2(2)]
          from re(1) no_writers_gone [OF ch fd a(1) jL re(2)]
          show ?thesis by simp
        qed
        then have e: "pipes s ! (j - 1) = []" "writer_gone s (j - 1)" by simp_all
        from pipe_stays_empty [OF ch fd st a(1) jL e] writer_stays_gone [OF st q e(2)]
        have "pipes s1 ! (j - 1) = [] \<and> writer_gone s1 (j - 1)" by simp }
      ultimately show ?thesis by (auto simp: teardown_ok_def)
    qed
  qed
  then show ?thesis by (simp add: inv_teardown_def)
qed

section \<open>Who holds which endpoint\<close>

lemma inv_ends_init: "inv_ends init"
  by (auto simp: inv_ends_def wr_only_def anc_open_def init_def lookup_def nth_Cons' split: if_splits)

lemma inv_endsD:
  assumes "inv_ends s" "j < length (procs s)"
  shows "wr_only j (procs s ! j)" "anc_open j (procs s ! j)"
  using assms by (simp_all add: inv_ends_def)

lemma local_ret_ok: "local_ret s p ok rv d lns \<Longrightarrow> local_ok (procs s ! p) rv"
  unfolding local_ret_def local_ok_def by auto

lemma wr_only_local:
  assumes w: "wr_only j P" and l: "local_ok P rv"
  shows "wr_only j (resume N P rv d)"
  unfolding wr_only_def
proof (intro allI impI)
  fix fd q
  assume "lookup (ofile (resume N P rv d)) fd = Some (Pipe_write q)"
  then have lk: "lookup (ofile P) fd = Some (Pipe_write q)" by simp
  with w have old: "q = j \<and> \<not> fresh (pc P) \<and> \<not> w_closed (pc P) \<and> fd = PIPE_WRITE (cursor P)
       \<or> j = q + 1 \<and> pc P = L81_close \<and> fd = PIPE_WRITE (pipe_left P)"
    by (simp add: wr_only_def)
  from lk have nn: "fd \<noteq> PIPE_INVALID" by auto
  show "q = j \<and> \<not> fresh (pc (resume N P rv d)) \<and> \<not> w_closed (pc (resume N P rv d))
          \<and> fd = PIPE_WRITE (cursor (resume N P rv d))
       \<or> j = q + 1 \<and> pc (resume N P rv d) = L81_close \<and> fd = PIPE_WRITE (pipe_left (resume N P rv d))"
    using old l lk nn unfolding local_ok_def
    by (cases "pc P") (auto simp: call_iffs code_defs pc_preds closed_preds split: role.splits)
qed

lemma wr_only_close:
  assumes w: "wr_only j P" and c: "call P = Sys_close fd0" and l: "lookup (ofile P) fd0 \<noteq> None"
  shows "wr_only j ((resume N P 0 (0, 0))\<lparr>ofile := (ofile P)[nat fd0 := None]\<rparr>)"
  unfolding wr_only_def
proof (intro allI impI)
  fix fd q
  let ?P' = "(resume N P 0 (0, 0))\<lparr>ofile := (ofile P)[nat fd0 := None]\<rparr>"
  from l have nn: "0 \<le> fd0" by (auto dest: lookup_Some_nonneg)
  assume "lookup (ofile ?P') fd = Some (Pipe_write q)"
  with nn have lk: "lookup (ofile P) fd = Some (Pipe_write q)" "fd \<noteq> fd0"
    by (auto simp: lookup_close split: if_splits)
  with w have old: "q = j \<and> \<not> fresh (pc P) \<and> \<not> w_closed (pc P) \<and> fd = PIPE_WRITE (cursor P)
       \<or> j = q + 1 \<and> pc P = L81_close \<and> fd = PIPE_WRITE (pipe_left P)"
    by (simp add: wr_only_def)
  show "q = j \<and> \<not> fresh (pc ?P') \<and> \<not> w_closed (pc ?P') \<and> fd = PIPE_WRITE (cursor ?P')
       \<or> j = q + 1 \<and> pc ?P' = L81_close \<and> fd = PIPE_WRITE (pipe_left ?P')"
    using old lk(2) close_sites [OF c]
    by (elim disjE conjE) (simp_all add: code_defs pc_preds closed_preds)
qed

lemma holds_close:
  assumes "holds fs e" "lookup fs fd0 = Some e0" "e \<noteq> e0"
  shows "holds (fs[nat fd0 := None]) e"
proof -
  from assms(1) obtain fd where fd: "lookup fs fd = Some e" by (auto simp: holds_def)
  with assms have "fd \<noteq> fd0" by auto
  moreover from assms(2) have "0 \<le> fd0" by (rule lookup_Some_nonneg)
  ultimately show ?thesis using fd by (auto simp: holds_def lookup_close)
qed

lemma holds_install: "holds fs e \<Longrightarrow> holds (install fs (fdalloc fs) e') e"
  by (auto simp: holds_def intro: lookup_install_old)

text \<open>what a successful close releases: an endpoint of the caller's own two pipes\<close>

lemma chain_ok_cursor:
  assumes "chain_ok K L j P" "\<not> fresh (pc P)" "\<not> j < K"
  shows "cursor P = (PIPE_INVALID, PIPE_INVALID)"
  using assms by (simp add: chain_ok_def)

lemma close_target:
  assumes ch: "chain_ok K L j P" and co: "cur_open K j P" and uo: "up_open j P"
    and run: "pstate P = RUNNING" and c: "call P = Sys_close fd" and l: "lookup (ofile P) fd \<noteq> None"
  shows "lookup (ofile P) fd = Some (Pipe_read j) \<or> lookup (ofile P) fd = Some (Pipe_write j)
     \<or> j \<noteq> 0 \<and> (lookup (ofile P) fd = Some (Pipe_read (j - 1))
          \<or> lookup (ofile P) fd = Some (Pipe_write (j - 1)))"
proof -
  have inv: "j < K" if "\<not> fresh (pc P)" "fd = fst (cursor P) \<or> fd = snd (cursor P)"
  proof (rule ccontr)
    assume "\<not> j < K"
    from chain_ok_cursor [OF ch that(1) this] that(2) l show False by auto
  qed
  from chain_okD(1) [OF ch] have j0: "child_pc (pc P) \<Longrightarrow> j \<noteq> 0" by auto
  from close_sites [OF c]
  consider "pc P = L150_close" "fd = fst (cursor P)" | "pc P = L151_close" "fd = snd (cursor P)"
    | "pc P = L81_close" "fd = snd (pipe_left P)" | "pc P = L103_close" "fd = fst (pipe_left P)"
    | "pc P = L104_close" "fd = fst (cursor P)" | "pc P = L105_close" "fd = snd (cursor P)"
    by blast
  then show ?thesis
  proof cases
    case 1
    then have "j < K" by (intro inv) (simp_all add: fresh_def)
    with 1 co run show ?thesis by (simp add: cur_open_def pc_preds closed_preds PIPE_READ_def)
  next
    case 2
    then have "j < K" by (intro inv) (simp_all add: fresh_def)
    with 2 co run show ?thesis by (simp add: cur_open_def pc_preds closed_preds PIPE_WRITE_def)
  next
    case 3
    then have "j \<noteq> 0" by (intro j0) (simp add: child_pc_def)
    with 3 uo run show ?thesis by (simp add: up_open_def pc_preds closed_preds PIPE_WRITE_def)
  next
    case 4
    then have "j \<noteq> 0" by (intro j0) (simp add: child_pc_def)
    with 4 uo run show ?thesis by (simp add: up_open_def pc_preds closed_preds PIPE_READ_def)
  next
    case 5
    then have "j < K" by (intro inv) (simp_all add: fresh_def)
    with 5 co run show ?thesis by (simp add: cur_open_def pc_preds closed_preds PIPE_READ_def)
  next
    case 6
    then have "j < K" by (intro inv) (simp_all add: fresh_def)
    with 6 co run show ?thesis by (simp add: cur_open_def pc_preds closed_preds PIPE_WRITE_def)
  qed
qed

lemma anc_open_close:
  assumes a: "anc_open j P" and ch: "chain_ok K L j P" and co: "cur_open K j P" and uo: "up_open j P"
    and run: "pstate P = RUNNING" and c: "call P = Sys_close fd" and l: "lookup (ofile P) fd \<noteq> None"
  shows "anc_open j ((resume N P 0 (0, 0))\<lparr>ofile := (ofile P)[nat fd := None]\<rparr>)"
proof -
  have "holds ((ofile P)[nat fd := None]) (Pipe_read q)" if q: "q + 1 < j" for q
  proof -
    from a run q have h: "holds (ofile P) (Pipe_read q)" by (simp add: anc_open_def)
    from close_target [OF ch co uo run c l] obtain e0
      where e0: "lookup (ofile P) fd = Some e0" "Pipe_read q \<noteq> e0"
      using q by auto
    from holds_close [OF h e0] show ?thesis .
  qed
  with run show ?thesis by (simp add: anc_open_def)
qed

lemma anc_open_resume [simp]: "anc_open j (resume N P rv d) = anc_open j P"
  by (simp add: anc_open_def)

lemma wr_only_frame [simp]:
  "wr_only j (P\<lparr>pstate := st\<rparr>) = wr_only j P"
  "wr_only j (P\<lparr>ofile := []\<rparr>)"
  by (simp_all add: wr_only_def)

lemma inv_ends_upd:
  assumes "inv_ends s" "p < length (procs s)" "wr_only p P'" "anc_open p P'"
    "procs s1 = (procs s)[p := P']"
  shows "inv_ends s1"
  using assms by (simp add: inv_ends_def nth_list_update)

lemma inv_ends_step:
  assumes ch: "inv_chain s" and fd: "inv_fds s" and inv: "inv_ends s" and st: "kstep N s l = Some s1"
  shows "inv_ends s1"
  using st
proof (cases rule: kstep_elim)
  case (k_local p ok rv d lns)
  then have lr: "local_ret s p ok rv d lns" by (simp add: local_ret_def)
  note e = inv_endsD [OF inv k_local(2)]
  show ?thesis
    using wr_only_local [OF e(1) local_ret_ok [OF lr]] e(2)
    by (intro inv_ends_upd [OF inv k_local(2)]) (simp_all add: k_local(4))
next
  case (k_close p ok fd')
  note e = inv_endsD [OF inv k_close(2)] and c = inv_chainD [OF ch k_close(2)] and f = inv_fdsD [OF fd k_close(2)]
  show ?thesis
    using wr_only_close [OF e(1) k_close(4,5)] anc_open_close [OF e(2) c(1) f k_close(3,4,5)]
    by (intro inv_ends_upd [OF inv k_close(2)]) (simp_all add: k_close(6) resume_ofile_upd)
next
  case (k_pipe p)
  let ?K = "length (pipes s)" and ?P = "procs s ! p"
  note e = inv_endsD [OF inv k_pipe(2)]
  from k_pipe(4) have pc: "pc ?P = L71_test" "PIPE_WRITE (cursor ?P) = PIPE_INVALID"
    by (auto simp: call_iffs)
  from chain_ok_at_pipe [OF inv_chainD(1) [OF ch k_pipe(2)] pc k_pipe(2) inv_chainD(2) [OF ch k_pipe(2)]]
  have pK: "p = ?K" by simp
  define r where "r = fdalloc (ofile ?P)"
  define fs1 where "fs1 = install (ofile ?P) r (Pipe_read ?K)"
  define w where "w = fdalloc fs1"
  define fs where "fs = install fs1 w (Pipe_write ?K)"
  have s1: "procs s1 = (procs s)[p := ?P\<lparr>ofile := fs, cursor := (int r, int w), pc := L78_fork\<rparr>]"
    using pc k_pipe(2) by (simp add: k_pipe(5) ret_def sys_pipe_def Let_def resume_def r_def w_def fs_def fs1_def)
  have lk: "lookup fs fd' = (if fd' = int w then Some (Pipe_write ?K)
      else if fd' = int r then Some (Pipe_read ?K) else lookup (ofile ?P) fd')" for fd'
    unfolding fs_def w_def fs1_def r_def by (simp add: lookup_install)
  have "wr_only p (?P\<lparr>ofile := fs, cursor := (int r, int w), pc := L78_fork\<rparr>)"
    unfolding wr_only_def
  proof (intro allI impI)
    fix fd' q
    assume "lookup (ofile (?P\<lparr>ofile := fs, cursor := (int r, int w), pc := L78_fork\<rparr>)) fd' = Some (Pipe_write q)"
    then have a: "lookup fs fd' = Some (Pipe_write q)" by simp
    have "fd' = int w \<and> q = ?K"
    proof (rule ccontr)
      assume n: "\<not> (fd' = int w \<and> q = ?K)"
      with a lk [of fd'] have old: "lookup (ofile ?P) fd' = Some (Pipe_write q)"
        by (auto split: if_splits)
      with e(1) pc have "fd' = PIPE_INVALID" by (auto simp: wr_only_def)
      with old show False by simp
    qed
    with pK show "q = p \<and> \<not> fresh (pc (?P\<lparr>ofile := fs, cursor := (int r, int w), pc := L78_fork\<rparr>))
          \<and> \<not> w_closed (pc (?P\<lparr>ofile := fs, cursor := (int r, int w), pc := L78_fork\<rparr>))
          \<and> fd' = PIPE_WRITE (cursor (?P\<lparr>ofile := fs, cursor := (int r, int w), pc := L78_fork\<rparr>))
       \<or> p = q + 1 \<and> pc (?P\<lparr>ofile := fs, cursor := (int r, int w), pc := L78_fork\<rparr>) = L81_close
          \<and> fd' = PIPE_WRITE (pipe_left (?P\<lparr>ofile := fs, cursor := (int r, int w), pc := L78_fork\<rparr>))"
      by (simp add: pc_preds closed_preds PIPE_WRITE_def)
  qed
  moreover have "holds fs e0" if "holds (ofile ?P) e0" for e0
    unfolding fs_def w_def fs1_def r_def using that by (intro holds_install)
  with e(2) k_pipe(3) have "anc_open p (?P\<lparr>ofile := fs, cursor := (int r, int w), pc := L78_fork\<rparr>)"
    by (simp add: anc_open_def)
  ultimately show ?thesis
    by (intro inv_ends_upd [OF inv k_pipe(2) _ _ s1])
next
  case (k_fork p)
  let ?L = "length (procs s)" and ?P = "procs s ! p"
  note e = inv_endsD [OF inv k_fork(2)] and c = inv_chainD [OF ch k_fork(2)] and f = inv_fdsD [OF fd k_fork(2)]
  from k_fork(4) have pc: "pc ?P = L78_fork" by (auto simp: call_iffs)
  with c have pL: "p + 1 = ?L" by (auto simp: chain_ok_def)
  let ?C = "?P\<lparr>role := Stage, n := val ?P, pipe_left := cursor ?P, pc := L81_close, parent := Some p\<rparr>"
  have s1: "procs s1 = (procs s)[p := resume N ?P (int ?L) (0, 0)] @ [?C]"
    using pc k_fork(2) by (auto simp: k_fork(5) sys_fork_def Let_def resume_def)
  have lo: "local_ok ?P (int ?L)" using pc k_fork(2) by (auto simp: local_ok_def call_iffs)
  have wp: "wr_only p (resume N ?P (int ?L) (0, 0))" by (rule wr_only_local [OF e(1) lo])
  have wc: "wr_only ?L ?C"
    unfolding wr_only_def
  proof (intro allI impI)
    fix fd' q
    assume "lookup (ofile ?C) fd' = Some (Pipe_write q)"
    then have "lookup (ofile ?P) fd' = Some (Pipe_write q)" by simp
    with e(1) pc have "q = p \<and> fd' = PIPE_WRITE (cursor ?P)" by (auto simp: wr_only_def)
    with pL show "q = ?L \<and> \<not> fresh (pc ?C) \<and> \<not> w_closed (pc ?C) \<and> fd' = PIPE_WRITE (cursor ?C)
       \<or> ?L = q + 1 \<and> pc ?C = L81_close \<and> fd' = PIPE_WRITE (pipe_left ?C)"
      by simp
  qed
  have ac: "anc_open ?L ?C"
  proof -
    have "holds (ofile ?P) (Pipe_read q)" if q: "q + 1 < ?L" for q
    proof (cases "q + 1 < p")
      case True
      with e(2) k_fork(3) show ?thesis by (simp add: anc_open_def)
    next
      case False
      with q pL have qp: "q + 1 = p" by simp
      with f(2) k_fork(3) pc have "lookup (ofile ?P) (PIPE_READ (pipe_left ?P)) = Some (Pipe_read (p - 1))"
        by (simp add: up_open_def closed_preds)
      with qp show ?thesis by (auto simp: holds_def)
    qed
    with k_fork(3) show ?thesis by (simp add: anc_open_def)
  qed
  have "wr_only j (procs s1 ! j) \<and> anc_open j (procs s1 ! j)" if j: "j < Suc ?L" for j
  proof -
    consider "j = p" | "j = ?L" | "j + 1 < ?L" using j pL by linarith
    then show ?thesis
    proof cases
      case 1
      with wp e(2) k_fork(2) show ?thesis by (simp add: s1 nth_append)
    next
      case 2
      with wc ac show ?thesis by (simp add: s1 nth_append)
    next
      case 3
      with inv_endsD [OF inv, of j] pL show ?thesis by (simp add: s1 nth_append)
    qed
  qed
  then show ?thesis by (simp add: inv_ends_def s1)
next
  case (k_read p ok fd' q v vs)
  note e = inv_endsD [OF inv k_read(2)]
  have "local_ok (procs s ! p) 4" using k_read(4) by (simp add: local_ok_def)
  from wr_only_local [OF e(1) this] e(2) show ?thesis
    by (intro inv_ends_upd [OF inv k_read(2)]) (simp_all add: k_read(8))
next
  case (k_write p ok fd' q v)
  note e = inv_endsD [OF inv k_write(2)]
  have "local_ok (procs s ! p) 4" using k_write(4) by (simp add: local_ok_def)
  from wr_only_local [OF e(1) this] e(2) show ?thesis
    by (intro inv_ends_upd [OF inv k_write(2)]) (simp_all add: k_write(8))
next
  case (k_reap p ok c cs)
  let ?s = "set_proc c ((procs s ! c)\<lparr>pstate := UNUSED\<rparr>) s"
  note rc = reap_child [OF k_reap(5)]
  then have cL: "c < length (procs s)" by simp
  note ec = inv_endsD [OF inv cL]
  from ec(2) rc have "anc_open c ((procs s ! c)\<lparr>pstate := UNUSED\<rparr>)" by (auto simp: anc_open_def)
  with ec(1) have is1: "inv_ends ?s"
    by (intro inv_ends_upd [OF inv cL]) simp_all
  have pL: "p < length (procs ?s)" using k_reap(2) by simp
  note e = inv_endsD [OF is1 pL]
  have "call (procs ?s ! p) = Sys_wait"
    using k_reap(2,3,4) rc cL by (cases "c = p") (simp_all add: nth_list_update)
  then have "local_ok (procs ?s ! p) (int c)" by (simp add: local_ok_def)
  from wr_only_local [OF e(1) this] e(2) show ?thesis
    by (intro inv_ends_upd [OF is1 pL]) (simp_all add: k_reap(6) ret_def)
next
  case (k_exit p ok st')
  show ?thesis
    by (intro inv_ends_upd [OF inv k_exit(2)]) (simp_all add: k_exit(5) sys_exit_def anc_open_def)
qed

section \<open>Reachable states\<close>

lemma reach_inv_fds: "reach N s \<Longrightarrow> inv_fds s"
  by (induction rule: reach.induct) (auto intro: inv_fds_init inv_fds_step reach_inv_chain)

lemma reach_inv_exit: "reach N s \<Longrightarrow> inv_exit s"
  by (induction rule: reach.induct)
    (auto intro: inv_exit_init inv_exit_step reach_inv_chain reach_inv_fds)

lemma reach_inv_teardown: "reach N s \<Longrightarrow> inv_teardown N s"
  by (induction rule: reach.induct)
    (auto intro: inv_teardown_init inv_teardown_step reach_inv_chain reach_inv_fds)

lemma reach_inv_ends: "reach N s \<Longrightarrow> inv_ends s"
  by (induction rule: reach.induct)
    (auto intro: inv_ends_init inv_ends_step reach_inv_chain reach_inv_fds)

lemma reach_run: "reach N s \<Longrightarrow> run N ls s = Some s1 \<Longrightarrow> reach N s1"
  by (induction ls arbitrary: s) (auto split: option.splits intro: reach_step)

lemma reach_exec: "reach N s \<Longrightarrow> reach N (exec N ls s)"
  by (auto simp: exec_def split: option.splits intro: reach_run)

lemma reach_final_35: "reach 35 final_35"
  unfolding final_35_def by (rule reach_exec [OF reach_init])

lemma reach_early_35: "reach 35 early_35"
  unfolding early_35_def by (rule reach_exec [OF reach_init])

lemma reach_mid_35: "reach 35 mid_35"
  unfolding mid_35_def by (rule reach_exec [OF reach_init])

lemma run_final_35: "run 35 lowest_first_35 init = Some final_35"
  unfolding final_35_def by code_simp

section \<open>Failures are terminal\<close>

text \<open>
  C8.  A worker that observes a failure does not retry.  The first three conjuncts are
  about the code's tests of the return value \<open>rv\<close>, whatever the kernel put there
  (\<open>ret N p rv d s\<close> is the return of the call into process \<open>p\<close>): after \<^verbatim>\<open>pipe\<close> returned
  any \<open>rv < 0\<close>, and after \<^verbatim>\<open>fork\<close> returned any \<open>rv < 0\<close>, the next two steps of the worker
  print the error line carrying the value in flight and exit with status 1; after
  \<^verbatim>\<open>write\<close> returned any \<open>rv \<le> 0\<close> (0 included) the next step of the worker exits with
  status 1 and prints nothing; a \<^verbatim>\<open>write\<close> that returned \<open>rv > 0\<close> does not lead to the
  exit.  The last three conjuncts are the same runs with the kernel's own answers: a
  refused \<^verbatim>\<open>pipe\<close>, a refused \<^verbatim>\<open>fork\<close>, and a \<^verbatim>\<open>write\<close> on which \<open>sys_write\<close> reports a
  value \<open>\<le> 0\<close>.  In each case the worker can take no further step, and it has created
  neither a pipe nor a process.
\<close>

theorem failure_is_terminal:
  assumes "p < length (procs s)" and "pstate (procs s ! p) = RUNNING"
  shows "(pc (procs s ! p) = L71_test \<and> PIPE_WRITE (cursor (procs s ! p)) = PIPE_INVALID \<and> rv < 0 \<longrightarrow>
           (\<exists>s3. run N [(p, a), (p, b)] (ret N p rv d s) = Some s3
              \<and> out s3 = out s @ [Pipe_error (val (procs s ! p))]
              \<and> pstate (procs s3 ! p) = ZOMBIE 1 \<and> kstep N s3 (p, c) = None
              \<and> length (procs s3) = length (procs s) \<and> pipes s3 = pipes s))
       \<and> (pc (procs s ! p) = L78_fork \<and> rv < 0 \<longrightarrow>
           (\<exists>s3. run N [(p, a), (p, b)] (ret N p rv d s) = Some s3
              \<and> out s3 = out s @ [Fork_error (val (procs s ! p))]
              \<and> pstate (procs s3 ! p) = ZOMBIE 1 \<and> kstep N s3 (p, c) = None
              \<and> length (procs s3) = length (procs s) \<and> pipes s3 = pipes s))
       \<and> (pc (procs s ! p) = L71_test \<and> PIPE_WRITE (cursor (procs s ! p)) \<noteq> PIPE_INVALID \<longrightarrow>
           (rv \<le> 0 \<longrightarrow>
             (\<exists>s2. run N [(p, b)] (ret N p rv d s) = Some s2
                \<and> out s2 = out s
                \<and> pstate (procs s2 ! p) = ZOMBIE 1 \<and> kstep N s2 (p, c) = None
                \<and> length (procs s2) = length (procs s) \<and> pipes s2 = pipes s))
           \<and> (rv > 0 \<longrightarrow> pc (procs (ret N p rv d s) ! p) \<noteq> L_exit1))
       \<and> (pc (procs s ! p) = L71_test \<and> PIPE_WRITE (cursor (procs s ! p)) = PIPE_INVALID \<longrightarrow>
           (\<exists>s3. run N [(p, False), (p, a), (p, b)] s = Some s3
              \<and> out s3 = out s @ [Pipe_error (val (procs s ! p))]
              \<and> pstate (procs s3 ! p) = ZOMBIE 1 \<and> kstep N s3 (p, c) = None
              \<and> length (procs s3) = length (procs s) \<and> pipes s3 = pipes s))
       \<and> (pc (procs s ! p) = L78_fork \<longrightarrow>
           (\<exists>s3. run N [(p, False), (p, a), (p, b)] s = Some s3
              \<and> out s3 = out s @ [Fork_error (val (procs s ! p))]
              \<and> pstate (procs s3 ! p) = ZOMBIE 1 \<and> kstep N s3 (p, c) = None
              \<and> length (procs s3) = length (procs s) \<and> pipes s3 = pipes s))
       \<and> (pc (procs s ! p) = L71_test \<and> PIPE_WRITE (cursor (procs s ! p)) \<noteq> PIPE_INVALID
            \<and> fst (sys_write p (PIPE_WRITE (cursor (procs s ! p))) (val (procs s ! p)) s) \<le> 0 \<longrightarrow>
           (\<exists>s2. run N [(p, a), (p, b)] s = Some s2
              \<and> out s2 = out s
              \<and> pstate (procs s2 ! p) = ZOMBIE 1 \<and> kstep N s2 (p, c) = None
              \<and> length (procs s2) = length (procs s) \<and> pipes s2 = pipes s))"
proof (intro conjI impI)
  assume "pc (procs s ! p) = L71_test \<and> PIPE_WRITE (cursor (procs s ! p)) = PIPE_INVALID \<and> rv < 0"
  with assms show "\<exists>s3. run N [(p, a), (p, b)] (ret N p rv d s) = Some s3
              \<and> out s3 = out s @ [Pipe_error (val (procs s ! p))]
              \<and> pstate (procs s3 ! p) = ZOMBIE 1 \<and> kstep N s3 (p, c) = None
              \<and> length (procs s3) = length (procs s) \<and> pipes s3 = pipes s"
    by (simp add: kstep_def call_def resume_def ret_def sys_exit_def)
next
  assume "pc (procs s ! p) = L78_fork \<and> rv < 0"
  with assms show "\<exists>s3. run N [(p, a), (p, b)] (ret N p rv d s) = Some s3
              \<and> out s3 = out s @ [Fork_error (val (procs s ! p))]
              \<and> pstate (procs s3 ! p) = ZOMBIE 1 \<and> kstep N s3 (p, c) = None
              \<and> length (procs s3) = length (procs s) \<and> pipes s3 = pipes s"
    by (simp add: kstep_def call_def resume_def ret_def sys_exit_def)
next
  assume "pc (procs s ! p) = L71_test \<and> PIPE_WRITE (cursor (procs s ! p)) \<noteq> PIPE_INVALID" "rv \<le> 0"
  with assms show "\<exists>s2. run N [(p, b)] (ret N p rv d s) = Some s2
                \<and> out s2 = out s
                \<and> pstate (procs s2 ! p) = ZOMBIE 1 \<and> kstep N s2 (p, c) = None
                \<and> length (procs s2) = length (procs s) \<and> pipes s2 = pipes s"
    by (simp add: kstep_def call_def resume_def ret_def sys_exit_def)
next
  assume "pc (procs s ! p) = L71_test \<and> PIPE_WRITE (cursor (procs s ! p)) \<noteq> PIPE_INVALID" "0 < rv"
  with assms show "pc (procs (ret N p rv d s) ! p) \<noteq> L_exit1"
    by (simp add: resume_def ret_def deliver_return_def split: role.splits)
next
  assume "pc (procs s ! p) = L71_test \<and> PIPE_WRITE (cursor (procs s ! p)) = PIPE_INVALID"
  with assms show "\<exists>s3. run N [(p, False), (p, a), (p, b)] s = Some s3
              \<and> out s3 = out s @ [Pipe_error (val (procs s ! p))]
              \<and> pstate (procs s3 ! p) = ZOMBIE 1 \<and> kstep N s3 (p, c) = None
              \<and> length (procs s3) = length (procs s) \<and> pipes s3 = pipes s"
    by (simp add: kstep_def call_def resume_def ret_def sys_exit_def)
next
  assume "pc (procs s ! p) = L78_fork"
  with assms show "\<exists>s3. run N [(p, False), (p, a), (p, b)] s = Some s3
              \<and> out s3 = out s @ [Fork_error (val (procs s ! p))]
              \<and> pstate (procs s3 ! p) = ZOMBIE 1 \<and> kstep N s3 (p, c) = None
              \<and> length (procs s3) = length (procs s) \<and> pipes s3 = pipes s"
    by (simp add: kstep_def call_def resume_def ret_def sys_exit_def)
next
  assume w: "pc (procs s ! p) = L71_test \<and> PIPE_WRITE (cursor (procs s ! p)) \<noteq> PIPE_INVALID
            \<and> fst (sys_write p (PIPE_WRITE (cursor (procs s ! p))) (val (procs s ! p)) s) \<le> 0"
  then have "sys_write p (PIPE_WRITE (cursor (procs s ! p))) (val (procs s ! p)) s = (- 1, s)"
    by (auto simp: sys_write_def split: option.splits endpoint.splits if_splits)
  with w assms show "\<exists>s2. run N [(p, a), (p, b)] s = Some s2
              \<and> out s2 = out s
              \<and> pstate (procs s2 ! p) = ZOMBIE 1 \<and> kstep N s2 (p, c) = None
              \<and> length (procs s2) = length (procs s) \<and> pipes s2 = pipes s"
    by (simp add: kstep_def call_def resume_def ret_def sys_exit_def)
qed

theorem failure_is_terminal_witness:
  "(\<exists>s3. run 35 [(0, True), (0, True)] (ret 35 0 (- 1) (0, 0) (probe L71_test (PIPE_INVALID, PIPE_INVALID))) = Some s3
      \<and> out s3 = [Pipe_error 3] \<and> pstate (procs s3 ! 0) = ZOMBIE 1)
   \<and> (\<exists>s3. run 35 [(0, True), (0, True)] (ret 35 0 (- 7) (0, 0) (probe L78_fork (3, 4))) = Some s3
      \<and> out s3 = [Fork_error 3] \<and> pstate (procs s3 ! 0) = ZOMBIE 1)
   \<and> (\<exists>s2. run 35 [(0, True)] (ret 35 0 0 (0, 0) (probe L71_test (3, 4))) = Some s2
      \<and> out s2 = [] \<and> pstate (procs s2 ! 0) = ZOMBIE 1)
   \<and> pc (procs (ret 35 0 4 (0, 0) (probe L71_test (3, 4))) ! 0) \<noteq> L_exit1
   \<and> (\<exists>s3. run 35 [(0, False), (0, True), (0, True)] (probe L71_test (PIPE_INVALID, PIPE_INVALID)) = Some s3
      \<and> out s3 = [Pipe_error 3] \<and> pstate (procs s3 ! 0) = ZOMBIE 1)
   \<and> (\<exists>s3. run 35 [(0, False), (0, True), (0, True)] (probe L78_fork (3, 4)) = Some s3
      \<and> out s3 = [Fork_error 3] \<and> pstate (procs s3 ! 0) = ZOMBIE 1)
   \<and> fst (sys_write 0 4 3 (probe L71_test (3, 4))) \<le> 0
   \<and> (\<exists>s2. run 35 [(0, True), (0, True)] (probe L71_test (3, 4)) = Some s2
      \<and> out s2 = [] \<and> pstate (procs s2 ! 0) = ZOMBIE 1)"
  using failure_is_terminal [of 0 "probe L71_test (PIPE_INVALID, PIPE_INVALID)" "- 1" 35 True True "(0, 0)" True]
    failure_is_terminal [of 0 "probe L78_fork (3, 4)" "- 7" 35 True True "(0, 0)" True]
    failure_is_terminal [of 0 "probe L71_test (3, 4)" 0 35 True True "(0, 0)" True]
    failure_is_terminal [of 0 "probe L71_test (3, 4)" 4 35 True True "(0, 0)" True]
  by (auto simp add: probe_def init_def PIPE_WRITE_def PIPE_INVALID_def sys_write_def lookup_def)

section \<open>Every worker is joined\<close>

lemma kstep_pstate:
  assumes "kstep N s l = Some s1" "c < length (procs s)"
  shows "pstate (procs s1 ! c) = pstate (procs s ! c)
     \<or> c = fst l \<and> pstate (procs s ! c) = RUNNING \<and> (\<exists>st. pstate (procs s1 ! c) = ZOMBIE st)
     \<or> pstate (procs s1 ! c) = UNUSED \<and> parent (procs s ! c) = Some (fst l)
        \<and> (\<exists>st. pstate (procs s ! c) = ZOMBIE st) \<and> call (procs s ! fst l) = Sys_wait"
  using assms(1)
proof (cases rule: kstep_elim)
  case (k_local p ok rv d lns)
  with assms(2) show ?thesis by (cases "c = p") simp_all
next
  case (k_close p ok fd)
  with assms(2) show ?thesis by (cases "c = p") (simp_all add: resume_ofile_upd)
next
  case (k_pipe p)
  with assms(2) show ?thesis by (cases "c = p") (simp_all add: ret_def sys_pipe_def Let_def)
next
  case (k_fork p)
  with assms(2) show ?thesis by (cases "c = p") (simp_all add: sys_fork_def Let_def nth_append)
next
  case (k_read p ok fd q v vs)
  with assms(2) show ?thesis by (cases "c = p") simp_all
next
  case (k_write p ok fd q v)
  with assms(2) show ?thesis by (cases "c = p") simp_all
next
  case (k_reap p ok c' cs)
  note rc = reap_child [OF k_reap(5)]
  show ?thesis
  proof (cases "c = p")
    case True
    with k_reap(2,3) rc show ?thesis
      by (cases "c' = p") (simp_all add: k_reap(6) ret_def)
  next
    case False
    with k_reap(1,2,4) rc assms(2) show ?thesis
      by (cases "c = c'") (auto simp: k_reap(6) ret_def nth_list_update)
  qed
next
  case (k_exit p ok st)
  with assms(2) show ?thesis by (cases "c = p") (simp_all add: sys_exit_def)
qed

lemma kstep_unused:
  assumes "kstep N s l = Some s1" "c < length (procs s)" "pstate (procs s1 ! c) = UNUSED"
  shows "pstate (procs s ! c) = UNUSED
     \<or> parent (procs s ! c) = Some (fst l) \<and> (\<exists>st. pstate (procs s ! c) = ZOMBIE st)
        \<and> call (procs s ! fst l) = Sys_wait"
  using kstep_pstate [OF assms(1,2)] assms(3) by auto

lemma kstep_stays_unused:
  assumes "kstep N s l = Some s1" "c < length (procs s)" "pstate (procs s ! c) = UNUSED"
  shows "pstate (procs s1 ! c) = UNUSED"
  using kstep_pstate [OF assms(1,2)] assms(3) by auto

lemma unjoined_zero:
  assumes "done_below s 0"
  shows "length (filter (\<lambda>P. pstate P \<noteq> UNUSED) (tl (procs s))) = 0"
proof -
  have "pstate P = UNUSED" if "P \<in> set (tl (procs s))" for P
  proof -
    from that obtain i where "i < length (tl (procs s))" "tl (procs s) ! i = P"
      by (auto simp: in_set_conv_nth)
    then have "Suc i < length (procs s)" "procs s ! Suc i = P"
      by (auto simp: nth_tl)
    with assms show ?thesis by (auto simp: done_below_def)
  qed
  then show ?thesis by (simp add: filter_empty_conv)
qed

text \<open>
  C6.  In every reachable state: (1) once a worker has terminated, every worker below it
  in the chain, which is every worker it spawned or that descends from one, has been
  joined (its slot is \<open>UNUSED\<close>); (2) in particular, once the Driver has returned, the
  number of workers not yet joined is zero; (3) a worker is joined only by a \<^verbatim>\<open>wait\<close> of
  its spawner, and only after it has terminated; (4) a joined worker stays joined, so
  no worker is joined twice.
\<close>

theorem every_worker_joined:
  assumes "reach N s"
  shows "(\<forall>j m. j < m \<and> m < length (procs s) \<and> pstate (procs s ! j) \<noteq> RUNNING
            \<longrightarrow> pstate (procs s ! m) = UNUSED)
       \<and> (pstate (procs s ! 0) \<noteq> RUNNING
            \<longrightarrow> length (filter (\<lambda>P. pstate P \<noteq> UNUSED) (tl (procs s))) = 0)
       \<and> (\<forall>l s1 c. kstep N s l = Some s1 \<and> c < length (procs s)
              \<and> pstate (procs s ! c) \<noteq> UNUSED \<and> pstate (procs s1 ! c) = UNUSED
            \<longrightarrow> parent (procs s ! c) = Some (fst l) \<and> (\<exists>st. pstate (procs s ! c) = ZOMBIE st)
                \<and> call (procs s ! fst l) = Sys_wait)
       \<and> (\<forall>l s1 c. kstep N s l = Some s1 \<and> c < length (procs s) \<and> pstate (procs s ! c) = UNUSED
            \<longrightarrow> pstate (procs s1 ! c) = UNUSED)"
proof (intro conjI allI impI)
  fix j m
  assume a: "j < m \<and> m < length (procs s) \<and> pstate (procs s ! j) \<noteq> RUNNING"
  then have "j < length (procs s)" by simp
  from inv_exitD(3) [OF reach_inv_exit [OF assms] this] a
  show "pstate (procs s ! m) = UNUSED" by (simp add: done_below_def)
next
  assume a: "pstate (procs s ! 0) \<noteq> RUNNING"
  from reach_inv_chain [OF assms] have "0 < length (procs s)" by (simp add: inv_chain_def)
  from inv_exitD(3) [OF reach_inv_exit [OF assms] this] a
  show "length (filter (\<lambda>P. pstate P \<noteq> UNUSED) (tl (procs s))) = 0"
    by (simp add: unjoined_zero)
next
  fix l s1 c
  assume "kstep N s l = Some s1 \<and> c < length (procs s)
              \<and> pstate (procs s ! c) \<noteq> UNUSED \<and> pstate (procs s1 ! c) = UNUSED"
  with kstep_unused [of N s l s1 c]
  show "parent (procs s ! c) = Some (fst l)" "\<exists>st. pstate (procs s ! c) = ZOMBIE st"
    "call (procs s ! fst l) = Sys_wait"
    by auto
next
  fix l s1 c
  assume "kstep N s l = Some s1 \<and> c < length (procs s) \<and> pstate (procs s ! c) = UNUSED"
  then show "pstate (procs s1 ! c) = UNUSED" by (auto intro: kstep_stays_unused)
qed

theorem every_worker_joined_witness:
  "reach 35 final_35
   \<and> map pstate (procs final_35)
       = [ZOMBIE 0, UNUSED, UNUSED, UNUSED, UNUSED, UNUSED, UNUSED, UNUSED, UNUSED, UNUSED, UNUSED]
   \<and> length (filter (\<lambda>P. pstate P \<noteq> UNUSED) (tl (procs final_35))) = 0"
proof -
  have e: "map pstate (procs final_35)
       = [ZOMBIE 0, UNUSED, UNUSED, UNUSED, UNUSED, UNUSED, UNUSED, UNUSED, UNUSED, UNUSED, UNUSED]"
    by code_simp
  have z: "pstate (procs final_35 ! 0) = ZOMBIE 0"
    by code_simp
  have "pstate (procs final_35 ! 0) \<noteq> RUNNING
      \<longrightarrow> length (filter (\<lambda>P. pstate P \<noteq> UNUSED) (tl (procs final_35))) = 0"
    using every_worker_joined [OF reach_final_35] by (rule conjunct2 [THEN conjunct1])
  with z have "length (filter (\<lambda>P. pstate P \<noteq> UNUSED) (tl (procs final_35))) = 0"
    by simp
  with reach_final_35 e show ?thesis by (intro conjI)
qed

section \<open>Shutdown is bottom-up\<close>

lemma writers_iff:
  assumes ch: "inv_chain s" and fd: "inv_fds s" and en: "inv_ends s"
    and j: "j \<noteq> 0" "j < length (procs s)" and pc: "pc (procs s ! j) \<noteq> L81_close"
  shows "writers s (j - 1) \<longleftrightarrow> \<not> writer_gone s (j - 1)"
proof
  assume "\<not> writer_gone s (j - 1)"
  with no_writers_gone [OF ch fd j] show "writers s (j - 1)" by blast
next
  assume "writers s (j - 1)"
  then obtain P where P: "P \<in> set (procs s)" "Some (Pipe_write (j - 1)) \<in> set (ofile P)"
    by (auto simp: writers_def)
  then obtain m where m: "m < length (procs s)" "P = procs s ! m" by (auto simp: in_set_conv_nth)
  from in_set_lookup [OF P(2)] obtain fd' where lk: "lookup (ofile P) fd' = Some (Pipe_write (j - 1))" ..
  note e = inv_endsD [OF en m(1)]
  from lk have "ofile P \<noteq> []" by auto
  with e(2) m(2) have run: "pstate (procs s ! m) = RUNNING" by (auto simp: anc_open_def)
  from e(1) have "(j - 1 = m \<and> \<not> fresh (pc (procs s ! m)) \<and> \<not> w_closed (pc (procs s ! m))
        \<and> fd' = PIPE_WRITE (cursor (procs s ! m)))
      \<or> (m = (j - 1) + 1 \<and> pc (procs s ! m) = L81_close \<and> fd' = PIPE_WRITE (pipe_left (procs s ! m)))"
    unfolding wr_only_def using lk m(2) by blast
  then have "m = j - 1 \<and> \<not> w_closed (pc (procs s ! m)) \<or> m = j \<and> pc (procs s ! m) = L81_close"
    using j(1) by auto
  with pc have "m = j - 1" "\<not> w_closed (pc (procs s ! m))" by auto
  with run show "\<not> writer_gone s (j - 1)" by (simp add: writer_gone_def)
qed

text \<open>
  C4.  In every reachable state, for every process \<open>j\<close> (0 is the Driver):
  (1) a Stage that is in its teardown (lines 103-109: the closes, the join, the exit) has
  an exhausted upstream: its pipe is empty and no copy of the pipe's write endpoint is
  open anywhere; (2) the Driver in its teardown (lines 150-156) has exhausted its range,
  \<open>i > MAX_PRIMES\<close>; (3) a running process that is not in its teardown has closed nothing
  of its cursor: both endpoints of an initialised cursor are open, and a Stage's upstream
  read endpoint is open; (4) a process joins (\<^verbatim>\<open>wait\<close>) only in its teardown; (5) once a
  process has terminated, every deeper process has terminated and been joined, so the
  deepest Stage terminates first; (6) when the Driver's join has returned, every Stage
  has terminated and been joined.
\<close>

theorem shutdown_bottom_up:
  assumes "reach N s" and "j < length (procs s)"
  shows "(j \<noteq> 0 \<and> in_teardown (pc (procs s ! j)) \<longrightarrow>
            pipes s ! (j - 1) = [] \<and> \<not> writers s (j - 1))
       \<and> (j = 0 \<and> main_teardown (pc (procs s ! j)) \<longrightarrow> N < val (procs s ! j))
       \<and> (pstate (procs s ! j) = RUNNING \<and> \<not> in_teardown (pc (procs s ! j))
            \<and> \<not> main_teardown (pc (procs s ! j)) \<longrightarrow>
            (PIPE_WRITE (cursor (procs s ! j)) \<noteq> PIPE_INVALID \<and> \<not> fresh (pc (procs s ! j)) \<longrightarrow>
               lookup (ofile (procs s ! j)) (PIPE_READ (cursor (procs s ! j))) = Some (Pipe_read j)
             \<and> lookup (ofile (procs s ! j)) (PIPE_WRITE (cursor (procs s ! j))) = Some (Pipe_write j))
          \<and> (j \<noteq> 0 \<longrightarrow>
               lookup (ofile (procs s ! j)) (PIPE_READ (pipe_left (procs s ! j))) = Some (Pipe_read (j - 1))))
       \<and> (call (procs s ! j) = Sys_wait \<longrightarrow>
            in_teardown (pc (procs s ! j)) \<or> main_teardown (pc (procs s ! j)))
       \<and> (pstate (procs s ! j) \<noteq> RUNNING \<longrightarrow>
            (\<forall>m. j < m \<and> m < length (procs s) \<longrightarrow> pstate (procs s ! m) = UNUSED))
       \<and> (pc (procs s ! 0) = L156_return \<longrightarrow>
            (\<forall>m. 0 < m \<and> m < length (procs s) \<longrightarrow> pstate (procs s ! m) = UNUSED))"
proof (intro conjI impI)
  note ch = reach_inv_chain [OF assms(1)] and fd = reach_inv_fds [OF assms(1)]
    and en = reach_inv_ends [OF assms(1)] and ex = reach_inv_exit [OF assms(1)]
    and td = reach_inv_teardown [OF assms(1)]
  note c = inv_chainD [OF ch assms(2)] and f = inv_fdsD [OF fd assms(2)]
  { assume a: "j \<noteq> 0 \<and> in_teardown (pc (procs s ! j))"
    from td assms(2) have "teardown_ok N s j" by (simp add: inv_teardown_def)
    with a have e: "pipes s ! (j - 1) = []" "writer_gone s (j - 1)"
      by (auto simp: teardown_ok_def)
    from e(1) show "pipes s ! (j - 1) = []" .
    from a have "pc (procs s ! j) \<noteq> L81_close" by (auto simp: in_teardown_def)
    from writers_iff [OF ch fd en _ assms(2) this] a e(2) show "\<not> writers s (j - 1)" by simp }
  { assume a: "j = 0 \<and> main_teardown (pc (procs s ! j))"
    from td assms(2) have "teardown_ok N s j" by (simp add: inv_teardown_def)
    with a show "N < val (procs s ! j)" by (auto simp: teardown_ok_def) }
  { assume a: "pstate (procs s ! j) = RUNNING \<and> \<not> in_teardown (pc (procs s ! j))
            \<and> \<not> main_teardown (pc (procs s ! j))"
    { assume b: "PIPE_WRITE (cursor (procs s ! j)) \<noteq> PIPE_INVALID \<and> \<not> fresh (pc (procs s ! j))"
      have jK: "j < length (pipes s)"
      proof (rule ccontr)
        assume "\<not> j < length (pipes s)"
        from chain_ok_cursor [OF c(1) _ this] b show False by (simp add: PIPE_WRITE_def)
      qed
      from a have "\<not> r_closed (pc (procs s ! j))" "\<not> w_closed (pc (procs s ! j))"
        by (auto simp: closed_preds in_teardown_def main_teardown_def)
      with f(1) a b jK
      show "lookup (ofile (procs s ! j)) (PIPE_READ (cursor (procs s ! j))) = Some (Pipe_read j)"
        "lookup (ofile (procs s ! j)) (PIPE_WRITE (cursor (procs s ! j))) = Some (Pipe_write j)"
        by (simp_all add: cur_open_def) }
    { assume "j \<noteq> 0"
      moreover from a have "\<not> l_closed (pc (procs s ! j))" by (auto simp: closed_preds in_teardown_def)
      ultimately show "lookup (ofile (procs s ! j)) (PIPE_READ (pipe_left (procs s ! j))) = Some (Pipe_read (j - 1))"
        using f(2) a by (simp add: up_open_def) } }
  { assume "call (procs s ! j) = Sys_wait"
    then show "in_teardown (pc (procs s ! j)) \<or> main_teardown (pc (procs s ! j))"
      by (auto simp: call_iffs in_teardown_def main_teardown_def) }
  { assume "pstate (procs s ! j) \<noteq> RUNNING"
    with inv_exitD(3) [OF ex assms(2)]
    show "\<forall>m. j < m \<and> m < length (procs s) \<longrightarrow> pstate (procs s ! m) = UNUSED"
      by (simp add: done_below_def) }
  { assume "pc (procs s ! 0) = L156_return"
    moreover from ch have "0 < length (procs s)" by (simp add: inv_chain_def)
    ultimately show "\<forall>m. 0 < m \<and> m < length (procs s) \<longrightarrow> pstate (procs s ! m) = UNUSED"
      using inv_exitD(3) [OF ex, of 0] by (simp add: done_below_def exit_pc_def) }
qed

theorem shutdown_bottom_up_witness:
  "reach 35 mid_35 \<and> length (procs mid_35) = 3
   \<and> in_teardown (pc (procs mid_35 ! 1)) \<and> pipes mid_35 ! 0 = [] \<and> \<not> writers mid_35 0
   \<and> main_teardown (pc (procs mid_35 ! 0)) \<and> 35 < val (procs mid_35 ! 0)
   \<and> pstate (procs mid_35 ! 2) = RUNNING \<and> pc (procs mid_35 ! 2) = L71_test
   \<and> lookup (ofile (procs mid_35 ! 2)) (PIPE_READ (pipe_left (procs mid_35 ! 2))) = Some (Pipe_read 1)
   \<and> reach 35 early_35 \<and> pc (procs early_35 ! 0) = L71_test \<and> cursor (procs early_35 ! 0) = (3, 4)
   \<and> lookup (ofile (procs early_35 ! 0)) 3 = Some (Pipe_read 0)
   \<and> lookup (ofile (procs early_35 ! 0)) 4 = Some (Pipe_write 0)"
proof -
  have m: "length (procs mid_35) = 3" "in_teardown (pc (procs mid_35 ! 1))"
    "main_teardown (pc (procs mid_35 ! 0))" "pstate (procs mid_35 ! 2) = RUNNING"
    "pc (procs mid_35 ! 2) = L71_test"
    by code_simp+
  have e: "length (procs early_35) = 2" "pc (procs early_35 ! 0) = L71_test" "cursor (procs early_35 ! 0) = (3, 4)"
    "pstate (procs early_35 ! 0) = RUNNING"
    by code_simp+
  have m1: "pipes mid_35 ! (1 - 1) = [] \<and> \<not> writers mid_35 (1 - 1)"
    using shutdown_bottom_up [OF reach_mid_35, of 1] m by simp
  have m0: "35 < val (procs mid_35 ! 0)"
    using shutdown_bottom_up [OF reach_mid_35, of 0] m by simp
  have m2: "lookup (ofile (procs mid_35 ! 2)) (PIPE_READ (pipe_left (procs mid_35 ! 2))) = Some (Pipe_read (2 - 1))"
    using shutdown_bottom_up [OF reach_mid_35, of 2] m
    by (simp add: in_teardown_def main_teardown_def)
  have e0: "lookup (ofile (procs early_35 ! 0)) (PIPE_READ (cursor (procs early_35 ! 0))) = Some (Pipe_read 0)
      \<and> lookup (ofile (procs early_35 ! 0)) (PIPE_WRITE (cursor (procs early_35 ! 0))) = Some (Pipe_write 0)"
    using shutdown_bottom_up [OF reach_early_35, of 0] e
    by (simp add: in_teardown_def main_teardown_def fresh_def PIPE_WRITE_def PIPE_INVALID_def)
  from m m0 m1 m2 e e0 reach_mid_35 reach_early_35 show ?thesis
    by (simp add: PIPE_READ_def PIPE_WRITE_def)
qed

section \<open>Inherited read endpoints\<close>

lemma child_pc_nonzero:
  assumes "chain_ok K L j P" "child_pc (pc P)"
  shows "j \<noteq> 0"
proof
  assume "j = 0"
  with chain_okD(1) [OF assms(1)] assms(2) show False by simp
qed

text \<open>
  C10.  In every reachable state, for every running process \<open>j\<close>:
  (1) it holds an open copy of the read endpoint of every pipe \<open>q\<close> with \<open>q + 1 < j\<close>,
  which are the upstream pipes of its ancestor Stages (for a Stage at depth 2 or more
  there is at least one), and this for as long as it runs;
  (2) whenever it closes an open descriptor, the endpoint released belongs to its own
  upstream pipe \<open>j - 1\<close> or to its own downstream pipe \<open>j\<close>, never to an ancestor's;
  (3) a copy of the write endpoint of pipe \<open>q\<close> is open only in the cursor of its creator
  \<open>q\<close>, and in the new Stage \<open>q + 1\<close> while that Stage has not yet passed line 81;
  (4) at line 81 the new Stage closes exactly that copy;
  (5) the creator's own copy is open until its teardown, so a pipe whose creator still
  forwards has exactly one writer once the new Stage has passed line 81;
  (6) a Stage reading an empty upstream pipe gets end-of-stream exactly when its parent
  has closed the write endpoint or terminated, whatever read endpoints are open.
\<close>

theorem inherited_read_ends:
  assumes "reach N s" and "j < length (procs s)" and "pstate (procs s ! j) = RUNNING"
  shows "(\<forall>q. q + 1 < j \<longrightarrow> holds (ofile (procs s ! j)) (Pipe_read q))
       \<and> (\<forall>fd. call (procs s ! j) = Sys_close fd \<and> lookup (ofile (procs s ! j)) fd \<noteq> None \<longrightarrow>
             lookup (ofile (procs s ! j)) fd = Some (Pipe_read j)
           \<or> lookup (ofile (procs s ! j)) fd = Some (Pipe_write j)
           \<or> j \<noteq> 0 \<and> (lookup (ofile (procs s ! j)) fd = Some (Pipe_read (j - 1))
                \<or> lookup (ofile (procs s ! j)) fd = Some (Pipe_write (j - 1))))
       \<and> (\<forall>fd q. lookup (ofile (procs s ! j)) fd = Some (Pipe_write q) \<longrightarrow>
             q = j \<and> fd = PIPE_WRITE (cursor (procs s ! j)) \<and> \<not> fresh (pc (procs s ! j))
           \<or> j = q + 1 \<and> pc (procs s ! j) = L81_close \<and> fd = PIPE_WRITE (pipe_left (procs s ! j)))
       \<and> (pc (procs s ! j) = L81_close \<longrightarrow>
             call (procs s ! j) = Sys_close (PIPE_WRITE (pipe_left (procs s ! j)))
           \<and> lookup (ofile (procs s ! j)) (PIPE_WRITE (pipe_left (procs s ! j))) = Some (Pipe_write (j - 1)))
       \<and> (j < length (pipes s) \<and> \<not> fresh (pc (procs s ! j)) \<and> \<not> w_closed (pc (procs s ! j)) \<longrightarrow>
             lookup (ofile (procs s ! j)) (PIPE_WRITE (cursor (procs s ! j))) = Some (Pipe_write j))
       \<and> (pc (procs s ! j) = L91_read \<and> pipes s ! (j - 1) = [] \<longrightarrow>
             sys_read j (PIPE_READ (pipe_left (procs s ! j))) s
               = (if pstate (procs s ! (j - 1)) = RUNNING \<and> \<not> w_closed (pc (procs s ! (j - 1)))
                  then None else Some ((0, 0), s)))"
proof (intro conjI allI impI)
  note ch = reach_inv_chain [OF assms(1)] and fd = reach_inv_fds [OF assms(1)]
    and en = reach_inv_ends [OF assms(1)]
  note c = inv_chainD [OF ch assms(2)] and f = inv_fdsD [OF fd assms(2)] and e = inv_endsD [OF en assms(2)]
  { fix q assume "q + 1 < j"
    with e(2) assms(3) show "holds (ofile (procs s ! j)) (Pipe_read q)" by (simp add: anc_open_def) }
  { fix fd' assume "call (procs s ! j) = Sys_close fd' \<and> lookup (ofile (procs s ! j)) fd' \<noteq> None"
    then show "lookup (ofile (procs s ! j)) fd' = Some (Pipe_read j)
           \<or> lookup (ofile (procs s ! j)) fd' = Some (Pipe_write j)
           \<or> j \<noteq> 0 \<and> (lookup (ofile (procs s ! j)) fd' = Some (Pipe_read (j - 1))
                \<or> lookup (ofile (procs s ! j)) fd' = Some (Pipe_write (j - 1)))"
      using close_target [OF c(1) f assms(3)] by blast }
  { fix fd' q assume "lookup (ofile (procs s ! j)) fd' = Some (Pipe_write q)"
    with e(1) show "q = j \<and> fd' = PIPE_WRITE (cursor (procs s ! j)) \<and> \<not> fresh (pc (procs s ! j))
           \<or> j = q + 1 \<and> pc (procs s ! j) = L81_close \<and> fd' = PIPE_WRITE (pipe_left (procs s ! j))"
      unfolding wr_only_def by blast }
  { assume pc: "pc (procs s ! j) = L81_close"
    then have "child_pc (pc (procs s ! j))" by (simp add: child_pc_def)
    from child_pc_nonzero [OF c(1) this] have j0: "j \<noteq> 0" .
    with f(2) pc assms(3)
    show lk: "lookup (ofile (procs s ! j)) (PIPE_WRITE (pipe_left (procs s ! j))) = Some (Pipe_write (j - 1))"
      by (simp add: up_open_def)
    then have "PIPE_WRITE (pipe_left (procs s ! j)) \<noteq> PIPE_INVALID" by auto
    with pc show "call (procs s ! j) = Sys_close (PIPE_WRITE (pipe_left (procs s ! j)))"
      by (simp add: call_def close_pipe_if_valid_def) }
  { assume "j < length (pipes s) \<and> \<not> fresh (pc (procs s ! j)) \<and> \<not> w_closed (pc (procs s ! j))"
    with f(1) assms(3)
    show "lookup (ofile (procs s ! j)) (PIPE_WRITE (cursor (procs s ! j))) = Some (Pipe_write j)"
      by (simp add: cur_open_def) }
  { assume a: "pc (procs s ! j) = L91_read \<and> pipes s ! (j - 1) = []"
    note ru = read_upstream [OF ch fd assms(2,3)]
    from a have "pc (procs s ! j) \<noteq> L81_close" by simp
    from writers_iff [OF ch fd en _ assms(2) this] a ru
    have "writers s (j - 1) \<longleftrightarrow> pstate (procs s ! (j - 1)) = RUNNING \<and> \<not> w_closed (pc (procs s ! (j - 1)))"
      by (simp add: writer_gone_def)
    with a ru show "sys_read j (PIPE_READ (pipe_left (procs s ! j))) s
               = (if pstate (procs s ! (j - 1)) = RUNNING \<and> \<not> w_closed (pc (procs s ! (j - 1)))
                  then None else Some ((0, 0), s))"
      by (simp add: sys_read_def) }
qed

theorem inherited_read_ends_witness:
  "reach 35 mid_35 \<and> pstate (procs mid_35 ! 2) = RUNNING
   \<and> holds (ofile (procs mid_35 ! 2)) (Pipe_read 0)
   \<and> lookup (ofile (procs mid_35 ! 2)) 3 = Some (Pipe_read 0)
   \<and> pc (procs (exec 35 (rounds [(0, 4)]) init) ! 1) = L81_close
   \<and> call (procs (exec 35 (rounds [(0, 4)]) init) ! 1) = Sys_close 4
   \<and> lookup (ofile (procs (exec 35 (rounds [(0, 4)]) init) ! 1)) 4 = Some (Pipe_write 0)
   \<and> pc (procs (exec 35 (rounds [(0, 4), (1, 2)]) init) ! 1) = L91_read
   \<and> sys_read 1 3 (exec 35 (rounds [(0, 4), (1, 2)]) init) = None"
proof -
  let ?a = "exec 35 (rounds [(0, 4)]) init" and ?b = "exec 35 (rounds [(0, 4), (1, 2)]) init"
  have ra: "reach 35 ?a" and rb: "reach 35 ?b" by (rule reach_exec [OF reach_init])+
  have m: "2 < length (procs mid_35)" "pstate (procs mid_35 ! 2) = RUNNING"
    "lookup (ofile (procs mid_35 ! 2)) 3 = Some (Pipe_read 0)"
    by code_simp+
  have a: "1 < length (procs ?a)" "pstate (procs ?a ! 1) = RUNNING" "pc (procs ?a ! 1) = L81_close"
    "pipe_left (procs ?a ! 1) = (3, 4)"
    by code_simp+
  have b: "1 < length (procs ?b)" "pstate (procs ?b ! 1) = RUNNING" "pc (procs ?b ! 1) = L91_read"
    "pipe_left (procs ?b ! 1) = (3, 4)" "pipes ?b ! 0 = []" "pstate (procs ?b ! 0) = RUNNING"
    "pc (procs ?b ! 0) = L139_for"
    by code_simp+
  have "holds (ofile (procs mid_35 ! 2)) (Pipe_read 0)"
    using inherited_read_ends [OF reach_mid_35 m(1,2)] by simp
  moreover have "call (procs ?a ! 1) = Sys_close 4
      \<and> lookup (ofile (procs ?a ! 1)) 4 = Some (Pipe_write 0)"
    using inherited_read_ends [OF ra a(1,2)] a(3,4) by (simp add: PIPE_WRITE_def)
  moreover have "sys_read 1 3 ?b = None"
    using inherited_read_ends [OF rb b(1,2)] b(3-) by (simp add: PIPE_READ_def w_closed_def)
  ultimately show ?thesis using m a b reach_mid_35 by simp
qed

lemma reach_first_deliver_35: "reach 35 first_deliver_35"
  unfolding first_deliver_35_def by (rule reach_exec [OF reach_init])

text \<open>
  C7, as the spec has it, fails: the spawning context does not close its copy of the read
  endpoint after the spawn.  After the Driver has created the first pipe and spawned the
  first Stage (it is back in its loop, line 139), descriptor 3, the read endpoint of
  pipe 0, is still open in the Driver; it is still open when the Driver delivers the
  next number.
\<close>

theorem spawner_closes_read_end_counterexample:
  "run 35 [(0, True), (0, True), (0, True), (0, True)] init = Some after_spawn_35
   \<and> length (procs after_spawn_35) = 2
   \<and> pc (procs after_spawn_35 ! 0) = L139_for
   \<and> PIPE_READ (cursor (procs after_spawn_35 ! 0)) = 3
   \<and> lookup (ofile (procs after_spawn_35 ! 0)) 3 = Some (Pipe_read 0)
   \<and> pc (procs early_35 ! 0) = L71_test
   \<and> PIPE_READ (cursor (procs early_35 ! 0)) = 3
   \<and> lookup (ofile (procs early_35 ! 0)) 3 = Some (Pipe_read 0)"
  by code_simp

lemma sys_pipe_effect:
  assumes "p < length (procs s)"
  shows "\<exists>r w fs. fst (sys_pipe p s) = (int r, int w) \<and> r \<noteq> w
      \<and> lookup (ofile (procs s ! p)) (int r) = None \<and> lookup (ofile (procs s ! p)) (int w) = None
      \<and> procs (snd (sys_pipe p s)) = (procs s)[p := (procs s ! p)\<lparr>ofile := fs\<rparr>]
      \<and> pipes (snd (sys_pipe p s)) = pipes s @ [[]] \<and> out (snd (sys_pipe p s)) = out s
      \<and> (\<forall>fd. lookup fs fd =
            (if fd = int w then Some (Pipe_write (length (pipes s)))
             else if fd = int r then Some (Pipe_read (length (pipes s)))
             else lookup (ofile (procs s ! p)) fd))"
proof -
  define r where "r = fdalloc (ofile (procs s ! p))"
  define fs1 where "fs1 = install (ofile (procs s ! p)) r (Pipe_read (length (pipes s)))"
  define w where "w = fdalloc fs1"
  have l1: "lookup fs1 fd = (if fd = int r then Some (Pipe_read (length (pipes s))) else lookup (ofile (procs s ! p)) fd)" for fd
    unfolding fs1_def r_def by (simp add: lookup_install)
  have "lookup fs1 (int w) = None" unfolding w_def by simp
  with l1 [of "int w"] have rw: "r \<noteq> w" "lookup (ofile (procs s ! p)) (int w) = None"
    by (auto split: if_splits)
  have r0: "lookup (ofile (procs s ! p)) (int r) = None" unfolding r_def by simp
  have l2: "lookup (install fs1 w (Pipe_write (length (pipes s)))) fd =
      (if fd = int w then Some (Pipe_write (length (pipes s))) else lookup fs1 fd)" for fd
    unfolding w_def by (simp add: lookup_install)
  show ?thesis
    using assms rw r0 l1 l2
    by (intro exI [of _ r] exI [of _ w] exI [of _ "install fs1 w (Pipe_write (length (pipes s)))"])
       (simp add: sys_pipe_def Let_def r_def [symmetric] fs1_def [symmetric] w_def [symmetric])
qed

text \<open>
  C7, as the code has it.  On the initializing branch of \<^verbatim>\<open>deliver_prime\<close> (the write slot
  of the cursor is invalid; \<^verbatim>\<open>pipe\<close> and \<^verbatim>\<open>fork\<close> succeed) the spawning context gets the
  two endpoints of the new pipe in two descriptors \<open>r \<noteq> w\<close> that were free, and after the
  spawn both are still open in the spawning context: it does not close its copy of the
  read endpoint.  No other descriptor of the spawning context changes, and the new Stage
  starts with a copy of the same descriptor table.  (Second conjunct) In every reachable
  state the read endpoint of an initialised cursor is open in its owner until the owner's
  teardown has closed it (line 104 or 150), and the write endpoint until line 105 or 151.
\<close>

theorem spawner_keeps_both_ends:
  assumes "reach N s" and "p < length (procs s)" and "pstate (procs s ! p) = RUNNING"
  shows "(pc (procs s ! p) = L71_test \<and> PIPE_WRITE (cursor (procs s ! p)) = PIPE_INVALID \<longrightarrow>
          (\<exists>s2 r w. run N [(p, True), (p, True)] s = Some s2
             \<and> cursor (procs s2 ! p) = (r, w) \<and> r \<noteq> w
             \<and> lookup (ofile (procs s ! p)) r = None \<and> lookup (ofile (procs s ! p)) w = None
             \<and> lookup (ofile (procs s2 ! p)) r = Some (Pipe_read (length (pipes s)))
             \<and> lookup (ofile (procs s2 ! p)) w = Some (Pipe_write (length (pipes s)))
             \<and> (\<forall>fd. fd \<noteq> r \<and> fd \<noteq> w \<longrightarrow>
                   lookup (ofile (procs s2 ! p)) fd = lookup (ofile (procs s ! p)) fd)
             \<and> length (procs s2) = Suc (length (procs s))
             \<and> ofile (procs s2 ! length (procs s)) = ofile (procs s2 ! p)
             \<and> pc (procs s2 ! length (procs s)) = L81_close))
       \<and> (PIPE_WRITE (cursor (procs s ! p)) \<noteq> PIPE_INVALID \<and> \<not> fresh (pc (procs s ! p)) \<longrightarrow>
            (\<not> r_closed (pc (procs s ! p)) \<longrightarrow>
               lookup (ofile (procs s ! p)) (PIPE_READ (cursor (procs s ! p))) = Some (Pipe_read p))
          \<and> (\<not> w_closed (pc (procs s ! p)) \<longrightarrow>
               lookup (ofile (procs s ! p)) (PIPE_WRITE (cursor (procs s ! p))) = Some (Pipe_write p)))"
proof (intro conjI impI)
  let ?P = "procs s ! p"
  assume a: "pc ?P = L71_test \<and> PIPE_WRITE (cursor ?P) = PIPE_INVALID"
  from sys_pipe_effect [OF assms(2)] obtain r w fs where
    rw: "fst (sys_pipe p s) = (int r, int w)" "r \<noteq> w"
      "lookup (ofile ?P) (int r) = None" "lookup (ofile ?P) (int w) = None"
    and ps: "procs (snd (sys_pipe p s)) = (procs s)[p := ?P\<lparr>ofile := fs\<rparr>]"
      "pipes (snd (sys_pipe p s)) = pipes s @ [[]]"
    and lk: "\<And>fd. lookup fs fd =
            (if fd = int w then Some (Pipe_write (length (pipes s)))
             else if fd = int r then Some (Pipe_read (length (pipes s)))
             else lookup (ofile ?P) fd)"
    by blast
  let ?fs = fs
  let ?s1 = "ret N p 0 (int r, int w) (snd (sys_pipe p s))"
  have c1: "call ?P = Sys_pipe" using a by (simp add: call_def)
  have "kstep N s (p, True) = Some (ret N p 0 (fst (sys_pipe p s)) (snd (sys_pipe p s)))"
    using assms(2,3) c1 by (simp add: kstep_def case_prod_beta)
  hence k1: "kstep N s (p, True) = Some ?s1" by (simp only: rw(1))
  have p1: "procs ?s1 = (procs s)[p := ?P\<lparr>ofile := ?fs, cursor := (int r, int w), pc := L78_fork\<rparr>]"
    using assms(2) a by (simp add: ret_def ps resume_def)
  let ?Q = "?P\<lparr>ofile := ?fs, cursor := (int r, int w), pc := L78_fork\<rparr>"
  have q: "procs ?s1 ! p = ?Q" "length (procs ?s1) = length (procs s)"
    using assms(2) by (simp_all add: p1)
  have c2: "call ?Q = Sys_fork" "pstate ?Q = RUNNING" using assms(3) by (simp_all add: call_def)
  have k2: "kstep N ?s1 (p, True) = Some (sys_fork N p ?s1)"
    using assms(2) c2 by (simp add: kstep_def q del: set_proc_def)
  have run: "run N [(p, True), (p, True)] s = Some (sys_fork N p ?s1)"
    by (simp add: k1 k2)
  have f1: "procs (sys_fork N p ?s1) ! p = deliver_return ?Q"
    "procs (sys_fork N p ?s1) ! length (procs s)
       = ?Q\<lparr>role := Stage, n := val ?Q, pipe_left := cursor ?Q, pc := L81_close, parent := Some p\<rparr>"
    "length (procs (sys_fork N p ?s1)) = Suc (length (procs s))"
    using assms(2) q by (auto simp add: sys_fork_def Let_def nth_append resume_def)
  have dr: "ofile (deliver_return ?Q) = ?fs" "cursor (deliver_return ?Q) = (int r, int w)"
    by (simp_all add: deliver_return_def split: role.splits)
  show "\<exists>s2 r w. run N [(p, True), (p, True)] s = Some s2
             \<and> cursor (procs s2 ! p) = (r, w) \<and> r \<noteq> w
             \<and> lookup (ofile ?P) r = None \<and> lookup (ofile ?P) w = None
             \<and> lookup (ofile (procs s2 ! p)) r = Some (Pipe_read (length (pipes s)))
             \<and> lookup (ofile (procs s2 ! p)) w = Some (Pipe_write (length (pipes s)))
             \<and> (\<forall>fd. fd \<noteq> r \<and> fd \<noteq> w \<longrightarrow>
                   lookup (ofile (procs s2 ! p)) fd = lookup (ofile ?P) fd)
             \<and> length (procs s2) = Suc (length (procs s))
             \<and> ofile (procs s2 ! length (procs s)) = ofile (procs s2 ! p)
             \<and> pc (procs s2 ! length (procs s)) = L81_close"
    using run rw lk
    by (intro exI [of _ "sys_fork N p ?s1"] exI [of _ "int r"] exI [of _ "int w"])
       (simp add: f1 dr)
next
  note ch = reach_inv_chain [OF assms(1)] and fd = reach_inv_fds [OF assms(1)]
  note c = inv_chainD [OF ch assms(2)] and f = inv_fdsD [OF fd assms(2)]
  assume b: "PIPE_WRITE (cursor (procs s ! p)) \<noteq> PIPE_INVALID \<and> \<not> fresh (pc (procs s ! p))"
  have pK: "p < length (pipes s)"
  proof (rule ccontr)
    assume "\<not> p < length (pipes s)"
    from chain_ok_cursor [OF c(1) _ this] b show False by (simp add: PIPE_WRITE_def)
  qed
  { assume "\<not> r_closed (pc (procs s ! p))"
    with f(1) b pK assms(3)
    show "lookup (ofile (procs s ! p)) (PIPE_READ (cursor (procs s ! p))) = Some (Pipe_read p)"
      by (simp add: cur_open_def) }
  { assume "\<not> w_closed (pc (procs s ! p))"
    with f(1) b pK assms(3)
    show "lookup (ofile (procs s ! p)) (PIPE_WRITE (cursor (procs s ! p))) = Some (Pipe_write p)"
      by (simp add: cur_open_def) }
qed

theorem spawner_keeps_both_ends_witness:
  "reach 35 first_deliver_35 \<and> pstate (procs first_deliver_35 ! 0) = RUNNING
   \<and> pc (procs first_deliver_35 ! 0) = L71_test
   \<and> PIPE_WRITE (cursor (procs first_deliver_35 ! 0)) = PIPE_INVALID
   \<and> run 35 [(0, True), (0, True)] first_deliver_35 = Some after_spawn_35
   \<and> cursor (procs after_spawn_35 ! 0) = (3, 4)
   \<and> lookup (ofile (procs after_spawn_35 ! 0)) 3 = Some (Pipe_read 0)
   \<and> lookup (ofile (procs after_spawn_35 ! 0)) 4 = Some (Pipe_write 0)
   \<and> ofile (procs after_spawn_35 ! 1) = ofile (procs after_spawn_35 ! 0)"
proof -
  have e: "length (procs first_deliver_35) = 1" "pstate (procs first_deliver_35 ! 0) = RUNNING"
    "pc (procs first_deliver_35 ! 0) = L71_test"
    "PIPE_WRITE (cursor (procs first_deliver_35 ! 0)) = PIPE_INVALID"
    "pipes first_deliver_35 = []"
    by code_simp+
  have r: "run 35 [(0, True), (0, True)] first_deliver_35 = Some after_spawn_35"
    "cursor (procs after_spawn_35 ! 0) = (3, 4)"
    by code_simp+
  from spawner_keeps_both_ends [OF reach_first_deliver_35, of 0] e r
  have "lookup (ofile (procs after_spawn_35 ! 0)) 3 = Some (Pipe_read 0)
      \<and> lookup (ofile (procs after_spawn_35 ! 0)) 4 = Some (Pipe_write 0)
      \<and> ofile (procs after_spawn_35 ! 1) = ofile (procs after_spawn_35 ! 0)"
    by auto
  with e r reach_first_deliver_35 show ?thesis by simp
qed





lemma reach_done_2: "reach 2 done_2"
  unfolding done_2_def by (rule reach_exec [OF reach_init])

lemma resume_initialised:
  assumes "initialised P" "pc P = L78_fork \<longrightarrow> rv \<noteq> 0"
  shows "cursor (resume N P rv d) = cursor P \<and> initialised (resume N P rv d)
     \<and> pc (resume N P rv d) \<noteq> L78_fork"
  using assms
  by (cases "pc P"; cases "role P")
     (simp_all add: initialised_def fresh_def resume_def deliver_return_def)

lemma same_locals_initialised:
  "same_locals Q P \<Longrightarrow> initialised Q = initialised P \<and> cursor Q = cursor P \<and> pc Q = pc P"
  by (simp add: same_locals_def initialised_def)

lemma step_initialised:
  assumes st: "kstep N s l = Some s1" and p: "p < length (procs s)" and i: "initialised (procs s ! p)"
  shows "initialised (procs s1 ! p) \<and> cursor (procs s1 ! p) = cursor (procs s ! p)
      \<and> p < length (procs s1) \<and> (pc (procs s ! p) \<noteq> L78_fork \<longrightarrow> pc (procs s1 ! p) \<noteq> L78_fork)"
proof -
  from kstep_length [OF st] p have len: "p < length (procs s1)" by auto
  show ?thesis
  proof (cases "p = fst l")
    case True
    from kstep_self [OF st] True obtain rv d where
      sl: "same_locals (procs s1 ! p) (resume N (procs s ! p) rv d)"
      and rv: "pc (procs s ! p) = L78_fork \<longrightarrow> rv \<noteq> 0" by auto
    from resume_initialised [OF i rv, of N d] same_locals_initialised [OF sl] len
    show ?thesis by simp
  next
    case False
    from kstep_other [OF st p False] have "same_locals (procs s1 ! p) (procs s ! p)" by simp
    from same_locals_initialised [OF this] i len show ?thesis by simp
  qed
qed

lemma run_initialised:
  assumes "p < length (procs s)" "initialised (procs s ! p)"
  shows "allocs N p ls s = 0
     \<and> (pc (procs s ! p) \<noteq> L78_fork \<longrightarrow> spawns N p ls s = 0)
     \<and> (\<forall>s1. run N ls s = Some s1 \<longrightarrow> cursor (procs s1 ! p) = cursor (procs s ! p))"
  using assms
proof (induction ls arbitrary: s)
  case Nil
  show ?case by simp
next
  case (Cons l ls)
  show ?case
  proof (cases "kstep N s l")
    case None
    then show ?thesis by simp
  next
    case (Some s1)
    note si = step_initialised [OF Some Cons.prems]
    from si have ih: "allocs N p ls s1 = 0"
      "pc (procs s1 ! p) \<noteq> L78_fork \<longrightarrow> spawns N p ls s1 = 0"
      "\<forall>s2. run N ls s1 = Some s2 \<longrightarrow> cursor (procs s2 ! p) = cursor (procs s1 ! p)"
      using Cons.IH [of s1] by simp_all
    from Cons.prems(2) have nc: "call (procs s ! p) \<noteq> Sys_pipe"
      by (simp add: call_iffs initialised_def)
    have nf: "pc (procs s ! p) \<noteq> L78_fork \<Longrightarrow> call (procs s ! p) \<noteq> Sys_fork"
      by (simp add: call_iffs)
    from Some ih si nc nf show ?thesis by simp
  qed
qed

lemma pipe_step:
  assumes "kstep N s (p, True) = Some s1" "call (procs s ! p) = Sys_pipe"
  shows "pipes s1 = pipes s @ [[]]"
  using assms(1)
proof (cases rule: kstep_elim)
  case (k_pipe q)
  then show ?thesis by (simp add: ret_def sys_pipe_def Let_def)
qed (use assms(2) in \<open>auto simp: call_iffs\<close>)

lemma fork_step:
  assumes "kstep N s (p, True) = Some s1" "call (procs s ! p) = Sys_fork"
  shows "length (procs s1) = Suc (length (procs s))"
  using assms(1)
proof (cases rule: kstep_elim)
  case (k_fork q)
  then show ?thesis by (simp add: sys_fork_def Let_def)
qed (use assms(2) in \<open>auto simp: call_iffs\<close>)

lemma pipes_grow:
  assumes "reach N s" "kstep N s l = Some s1"
  shows "length (pipes s) \<le> length (pipes s1)"
  using kstep_pipes [OF reach_inv_chain [OF assms(1)] reach_inv_fds [OF assms(1)] assms(2)]
  by auto

lemma procs_grow:
  assumes "kstep N s l = Some s1"
  shows "length (procs s) \<le> length (procs s1)"
  using kstep_length [OF assms] by auto

lemma allocs_le:
  assumes "reach N s"
  shows "allocs N p ls s \<le> (if p < length (pipes s) then 0 else 1)"
  using assms
proof (induction ls arbitrary: s)
  case Nil
  show ?case by simp
next
  case (Cons l ls)
  show ?case
  proof (cases "kstep N s l")
    case None
    then show ?thesis by simp
  next
    case (Some s1)
    have r1: "reach N s1" by (rule reach_step [OF Cons.prems Some])
    note ih = Cons.IH [OF r1]
    note gr = pipes_grow [OF Cons.prems Some]
    show ?thesis
    proof (cases "l = (p, True) \<and> call (procs s ! p) = Sys_pipe")
      case True
      with Some have st: "kstep N s (p, True) = Some s1" by simp
      from kstep_length [OF st] have pl: "p < length (procs s)" by simp
      note ch = reach_inv_chain [OF Cons.prems]
      from True have "pc (procs s ! p) = L71_test" "PIPE_WRITE (cursor (procs s ! p)) = PIPE_INVALID"
        by (simp_all add: call_iffs)
      from chain_ok_at_pipe [OF inv_chainD(1) [OF ch pl] this pl] ch
      have pk: "p = length (pipes s)" by (simp add: inv_chain_def)
      from pipe_step [OF st] True have "length (pipes s1) = Suc (length (pipes s))" by simp
      with pk ih Some True show ?thesis by simp
    next
      case False
      with Some ih gr show ?thesis by (auto split: if_splits)
    qed
  qed
qed

lemma spawns_le:
  assumes "reach N s"
  shows "spawns N p ls s \<le> (if p + 1 < length (procs s) then 0 else 1)"
  using assms
proof (induction ls arbitrary: s)
  case Nil
  show ?case by simp
next
  case (Cons l ls)
  show ?case
  proof (cases "kstep N s l")
    case None
    then show ?thesis by simp
  next
    case (Some s1)
    have r1: "reach N s1" by (rule reach_step [OF Cons.prems Some])
    note ih = Cons.IH [OF r1]
    note gr = procs_grow [OF Some]
    show ?thesis
    proof (cases "l = (p, True) \<and> call (procs s ! p) = Sys_fork")
      case True
      with Some have st: "kstep N s (p, True) = Some s1" by simp
      from kstep_length [OF st] have pl: "p < length (procs s)" by simp
      note ch = reach_inv_chain [OF Cons.prems]
      from True have "pc (procs s ! p) = L78_fork" by (simp add: call_iffs)
      with inv_chainD(1) [OF ch pl] have pk: "p + 1 = length (procs s)" by (simp add: chain_ok_def)
      from fork_step [OF st] True have "length (procs s1) = Suc (length (procs s))" by simp
      with pk ih Some True show ?thesis by simp
    next
      case False
      with Some ih gr show ?thesis by (auto split: if_splits)
    qed
  qed
qed

lemma inv_small_init: "inv_small init"
  by (simp add: inv_small_def init_def)

lemma inv_small_step:
  assumes i: "inv_small s" and st: "kstep N s l = Some s1" and n: "N < 3"
  shows "inv_small s1"
proof -
  from i have len: "length (procs s) = 1" "pipes s = []" by (simp_all add: inv_small_def)
  from i have mp: "main_pc (pc (procs s ! 0))"
    by (auto simp: inv_small_def main_pc_def main_teardown_def)
  then have nf: "pc (procs s ! 0) \<noteq> L78_fork" "pc (procs s ! 0) \<noteq> L71_test" "pc (procs s ! 0) \<noteq> L91_read"
    by (auto simp: main_pc_def)
  from i consider
      (a) "pc (procs s ! 0) = L136_print" "out s = []" "pstate (procs s ! 0) = RUNNING"
    | (b) "pc (procs s ! 0) = L139_for" "val (procs s ! 0) = 3" "out s = [Prime_line 2]"
    | (c) "pc (procs s ! 0) = L150_close" "out s = [Prime_line 2]"
    | (d) "pc (procs s ! 0) = L151_close" "out s = [Prime_line 2]"
    | (e) "pc (procs s ! 0) = L154_wait" "out s = [Prime_line 2]"
    | (f) "pc (procs s ! 0) = L156_return" "out s = [Prime_line 2]"
    by (auto simp: inv_small_def main_teardown_def)
  note cs = this
  from st show ?thesis
  proof (cases rule: kstep_elim)
    case (k_local p ok rv d lns)
    with len have p0: "p = 0" by simp
    from cs show ?thesis
      using k_local(4,5) len n unfolding p0
      by cases (auto simp: inv_small_def call_def resume_def print_prime_def START_PRIME_def
            main_teardown_def close_pipe_if_valid_def)
  next
    case (k_close p ok fd)
    with len have p0: "p = 0" by simp
    from cs show ?thesis
      using k_close(4,6) len n unfolding p0
      by cases (auto simp: inv_small_def call_def resume_def print_prime_def START_PRIME_def
            main_teardown_def)
  next
    case (k_pipe p)
    with len nf show ?thesis by (simp add: call_iffs)
  next
    case (k_fork p)
    with len nf show ?thesis by (simp add: call_iffs)
  next
    case (k_read p ok fd q v vs)
    with len nf show ?thesis by (simp add: call_iffs)
  next
    case (k_write p ok fd q v)
    with len nf show ?thesis by (simp add: call_iffs)
  next
    case (k_reap p ok c cs')
    with len have p0: "p = 0" by simp
    from reap_child [OF k_reap(5)] len have c0: "c = 0" by simp
    from k_reap(4) mp have "pc (procs s ! 0) = L154_wait" unfolding p0
      by (auto simp: call_iffs main_pc_def)
    with cs have "out s = [Prime_line 2]" by cases simp_all
    with k_reap(6) len \<open>pc (procs s ! 0) = L154_wait\<close> show ?thesis unfolding p0 c0
      by (simp add: inv_small_def ret_def resume_def main_teardown_def)
  next
    case (k_exit p ok st)
    with len have p0: "p = 0" by simp
    from cs show ?thesis
      using k_exit(4,5) len n unfolding p0
      by cases (auto simp: inv_small_def call_def sys_exit_def set_proc_def print_prime_def main_teardown_def)
  qed
qed

lemma reach_inv_small: "reach N s \<Longrightarrow> N < 3 \<Longrightarrow> inv_small s"
  by (induction rule: reach.induct) (auto intro: inv_small_init inv_small_step)

lemma step_creates:
  assumes r: "reach N s" and st: "kstep N s l = Some s1"
  shows "(length (pipes s1) \<noteq> length (pipes s) \<longrightarrow>
            call (procs s ! fst l) = Sys_pipe \<and> snd l \<and> initialised (procs s1 ! fst l)
            \<and> pc (procs s1 ! fst l) = L78_fork)
       \<and> (length (procs s1) \<noteq> length (procs s) \<longrightarrow>
            call (procs s ! fst l) = Sys_fork \<and> snd l \<and> initialised (procs s ! fst l)
            \<and> fst l + 1 = length (procs s))"
  using st
proof (cases rule: kstep_elim)
  case (k_pipe p)
  from sys_pipe_effect [OF k_pipe(2)] obtain r w fs where
    rw: "fst (sys_pipe p s) = (int r, int w)"
    and ps: "procs (snd (sys_pipe p s)) = (procs s)[p := (procs s ! p)\<lparr>ofile := fs\<rparr>]"
    by blast
  from k_pipe(4) have "pc (procs s ! p) = L71_test" "PIPE_WRITE (cursor (procs s ! p)) = PIPE_INVALID"
    by (simp_all add: call_iffs)
  with k_pipe rw ps show ?thesis
    by (simp add: ret_def resume_def initialised_def fresh_def PIPE_WRITE_def PIPE_INVALID_def)
next
  case (k_fork p)
  note ch = inv_chainD [OF reach_inv_chain [OF r] k_fork(2)]
  from k_fork(4) have pc: "pc (procs s ! p) = L78_fork" by (simp add: call_iffs)
  with ch(1) have "p + 1 = length (procs s)" "p < length (pipes s)"
    "0 \<le> snd (cursor (procs s ! p))"
    by (auto simp: chain_ok_def fresh_def)
  with k_fork pc show ?thesis
    by (simp add: sys_fork_def Let_def initialised_def fresh_def PIPE_WRITE_def PIPE_INVALID_def)
qed (simp_all add: ret_def sys_exit_def)

text \<open>
  C5.  (1) In any run, from any reachable state, a process is given a pipe for its cursor
  at most once and spawns at most once.  (2) Once its cursor is initialised, no step of
  the run initialises it again or changes it, and (past line 78) the process spawns no
  more.  (3) \<^verbatim>\<open>deliver_prime\<close> at line 71 asks for a pipe exactly when the write slot of
  the cursor is the invalid sentinel, and otherwise writes the value to the write slot.
  (4) A step creates a pipe only as a granted \<^verbatim>\<open>pipe\<close> call (so with the sentinel in the
  write slot), which leaves the cursor initialised and the process at the \<^verbatim>\<open>fork\<close> of
  line 78; a step creates a process only as a granted \<^verbatim>\<open>fork\<close> at line 78, by the last
  process of the chain; a write on an initialised cursor creates neither and leaves the
  cursor as it is.  (5) When the range has no candidate after 2 (\<^verbatim>\<open>MAX_PRIMES\<close> below 3, so
  the range [2,2]), no Stage is ever spawned and no pipe created, the output is empty or
  the single line \<^verbatim>\<open>prime 2\<close>, and it is that line once the Driver has terminated.
\<close>

theorem cursor_initialised_once:
  assumes "reach N s"
  shows "allocs N p ls s \<le> 1 \<and> spawns N p ls s \<le> 1
     \<and> (p < length (procs s) \<and> initialised (procs s ! p) \<longrightarrow>
          allocs N p ls s = 0
        \<and> (pc (procs s ! p) \<noteq> L78_fork \<longrightarrow> spawns N p ls s = 0)
        \<and> (\<forall>s1. run N ls s = Some s1 \<longrightarrow> cursor (procs s1 ! p) = cursor (procs s ! p)))
     \<and> (pc (procs s ! p) = L71_test \<longrightarrow>
          (PIPE_WRITE (cursor (procs s ! p)) = PIPE_INVALID \<longrightarrow> call (procs s ! p) = Sys_pipe)
        \<and> (PIPE_WRITE (cursor (procs s ! p)) \<noteq> PIPE_INVALID \<longrightarrow>
             call (procs s ! p) = Sys_write (PIPE_WRITE (cursor (procs s ! p))) (val (procs s ! p))))
     \<and> (\<forall>ok s1. kstep N s (p, ok) = Some s1 \<longrightarrow>
          (length (pipes s1) \<noteq> length (pipes s) \<longrightarrow>
             pc (procs s ! p) = L71_test \<and> PIPE_WRITE (cursor (procs s ! p)) = PIPE_INVALID \<and> ok
             \<and> initialised (procs s1 ! p) \<and> pc (procs s1 ! p) = L78_fork)
        \<and> (length (procs s1) \<noteq> length (procs s) \<longrightarrow>
             pc (procs s ! p) = L78_fork \<and> ok \<and> initialised (procs s ! p)
             \<and> p + 1 = length (procs s))
        \<and> (pc (procs s ! p) = L71_test \<and> PIPE_WRITE (cursor (procs s ! p)) \<noteq> PIPE_INVALID \<longrightarrow>
             length (pipes s1) = length (pipes s) \<and> length (procs s1) = length (procs s)
             \<and> cursor (procs s1 ! p) = cursor (procs s ! p)))
     \<and> (N < 3 \<longrightarrow> length (procs s) = 1 \<and> pipes s = []
          \<and> (out s = [] \<or> out s = [Prime_line 2])
          \<and> (pstate (procs s ! 0) \<noteq> RUNNING \<longrightarrow> out s = [Prime_line 2]))"
proof -
  have c1: "allocs N p ls s \<le> 1 \<and> spawns N p ls s \<le> 1"
    using allocs_le [OF assms, of p ls] spawns_le [OF assms, of p ls] by (simp split: if_splits)
  have c2: "p < length (procs s) \<and> initialised (procs s ! p) \<longrightarrow>
          allocs N p ls s = 0
        \<and> (pc (procs s ! p) \<noteq> L78_fork \<longrightarrow> spawns N p ls s = 0)
        \<and> (\<forall>s1. run N ls s = Some s1 \<longrightarrow> cursor (procs s1 ! p) = cursor (procs s ! p))"
    using run_initialised [of p s N ls] by blast
  have c3: "pc (procs s ! p) = L71_test \<longrightarrow>
          (PIPE_WRITE (cursor (procs s ! p)) = PIPE_INVALID \<longrightarrow> call (procs s ! p) = Sys_pipe)
        \<and> (PIPE_WRITE (cursor (procs s ! p)) \<noteq> PIPE_INVALID \<longrightarrow>
             call (procs s ! p) = Sys_write (PIPE_WRITE (cursor (procs s ! p))) (val (procs s ! p)))"
    by (simp add: call_def)
  have c4: "(length (pipes s1) \<noteq> length (pipes s) \<longrightarrow>
             pc (procs s ! p) = L71_test \<and> PIPE_WRITE (cursor (procs s ! p)) = PIPE_INVALID \<and> ok
             \<and> initialised (procs s1 ! p) \<and> pc (procs s1 ! p) = L78_fork)
        \<and> (length (procs s1) \<noteq> length (procs s) \<longrightarrow>
             pc (procs s ! p) = L78_fork \<and> ok \<and> initialised (procs s ! p)
             \<and> p + 1 = length (procs s))
        \<and> (pc (procs s ! p) = L71_test \<and> PIPE_WRITE (cursor (procs s ! p)) \<noteq> PIPE_INVALID \<longrightarrow>
             length (pipes s1) = length (pipes s) \<and> length (procs s1) = length (procs s)
             \<and> cursor (procs s1 ! p) = cursor (procs s ! p))"
    if st: "kstep N s (p, ok) = Some s1" for ok s1
  proof -
    note sc = step_creates [OF assms st]
    from kstep_length [OF st] have pl: "p < length (procs s)" by simp
    have w: "cursor (procs s1 ! p) = cursor (procs s ! p)"
      if "pc (procs s ! p) = L71_test" "PIPE_WRITE (cursor (procs s ! p)) \<noteq> PIPE_INVALID"
      using step_initialised [OF st pl] that by (simp add: initialised_def fresh_def)
    from sc w show ?thesis by (auto simp: call_iffs)
  qed
  have c5: "N < 3 \<longrightarrow> length (procs s) = 1 \<and> pipes s = []
          \<and> (out s = [] \<or> out s = [Prime_line 2])
          \<and> (pstate (procs s ! 0) \<noteq> RUNNING \<longrightarrow> out s = [Prime_line 2])"
    using reach_inv_small [OF assms] by (auto simp: inv_small_def)
  from c1 c2 c3 c4 c5 show ?thesis by blast
qed

theorem cursor_initialised_once_witness:
  "reach 35 init \<and> allocs 35 0 driver_alone_35 init = 1 \<and> spawns 35 0 driver_alone_35 init = 1
   \<and> pipes (exec 35 driver_alone_35 init) = [[5, 7, 9, 11, 13, 15, 17, 19, 21, 23, 25, 27, 29, 31, 33, 35]]
   \<and> reach 35 early_35 \<and> initialised (procs early_35 ! 0) \<and> pc (procs early_35 ! 0) = L71_test
   \<and> call (procs early_35 ! 0) = Sys_write 4 5
   \<and> allocs 35 0 driver_alone_35 early_35 = 0 \<and> spawns 35 0 driver_alone_35 early_35 = 0
   \<and> reach 2 done_2 \<and> pstate (procs done_2 ! 0) = ZOMBIE 0
   \<and> length (procs done_2) = 1 \<and> pipes done_2 = [] \<and> out done_2 = [Prime_line 2]"
proof -
  have a: "0 < allocs 35 0 driver_alone_35 init" "0 < spawns 35 0 driver_alone_35 init"
    "pipes (exec 35 driver_alone_35 init) = [[5, 7, 9, 11, 13, 15, 17, 19, 21, 23, 25, 27, 29, 31, 33, 35]]"
    by code_simp+
  have e: "length (procs early_35) = 2" "initialised (procs early_35 ! 0)"
    "pc (procs early_35 ! 0) = L71_test" "cursor (procs early_35 ! 0) = (3, 4)"
    "val (procs early_35 ! 0) = 5"
    by code_simp+
  have d: "pstate (procs done_2 ! 0) = ZOMBIE 0" by code_simp
  from cursor_initialised_once [OF reach_init, of 35 0 driver_alone_35] a
  have 1: "allocs 35 0 driver_alone_35 init = 1 \<and> spawns 35 0 driver_alone_35 init = 1"
    by simp
  from cursor_initialised_once [OF reach_early_35, of 0 driver_alone_35] e
  have 2: "call (procs early_35 ! 0) = Sys_write 4 5
      \<and> allocs 35 0 driver_alone_35 early_35 = 0 \<and> spawns 35 0 driver_alone_35 early_35 = 0"
    by (simp add: PIPE_WRITE_def PIPE_INVALID_def)
  from cursor_initialised_once [OF reach_done_2, of 0 "[]"] d
  have 3: "length (procs done_2) = 1 \<and> pipes done_2 = [] \<and> out done_2 = [Prime_line 2]"
    by simp
  from 1 2 3 a e d reach_init reach_early_35 reach_done_2 show ?thesis by simp
qed

lemma sent_append [simp]: "sent (es @ fs) = sent es @ sent fs"
  by (induction es rule: sent.induct) simp_all

lemma sent_written [simp]: "sent (map (Written w) vs) = vs"
  by (induction vs) simp_all

lemma sent_forwards [simp]: "sent (forwards w vs) = vs"
  by (cases vs) simp_all

lemma mrun_mono: "mrun N fds k c = Some r \<Longrightarrow> mrun N fds (k + j) c = Some r"
proof (induction k arbitrary: c)
  case 0
  then show ?case by simp
next
  case (Suc k)
  then show ?case by (cases "call (fst c)") simp_all
qed

lemma run_skip:
  assumes "at_read p l" "v mod p = 0"
  shows "\<exists>l2. at_read p l2 \<and> cursor l2 = cursor l
     \<and> (\<forall>k. mrun N fds (Suc k) (l, v # vs, evs) = mrun N fds k (l2, vs, evs))"
  using assms
  by (intro exI [of _ "l\<lparr>val := v\<rparr>"])
     (simp add: at_read_def mstep_def call_def resume_def)

lemma run_write:
  assumes "at_read p l" "v mod p \<noteq> 0" "PIPE_WRITE (cursor l) \<noteq> PIPE_INVALID"
  shows "\<exists>l2. at_read p l2 \<and> cursor l2 = cursor l
     \<and> (\<forall>k. mrun N fds (Suc (Suc k)) (l, v # vs, evs)
            = mrun N fds k (l2, vs, evs @ [Written (PIPE_WRITE (cursor l)) v]))"
  using assms
  by (intro exI [of _ "l\<lparr>val := v, pc := L91_read\<rparr>"])
     (simp add: at_read_def mstep_def call_def resume_def deliver_return_def)

lemma run_spawn:
  assumes "at_read p l" "v mod p \<noteq> 0" "PIPE_WRITE (cursor l) = PIPE_INVALID"
  shows "\<exists>l2. at_read p l2 \<and> cursor l2 = (int (fst fds), int (snd fds))
     \<and> (\<forall>k. mrun N fds (Suc (Suc (Suc k))) (l, v # vs, evs)
            = mrun N fds k (l2, vs, evs @ [Spawned v]))"
  using assms
  by (intro exI [of _ "l\<lparr>val := v, cursor := (int (fst fds), int (snd fds)), pc := L91_read\<rparr>"])
     (simp add: at_read_def mstep_def call_def resume_def deliver_return_def)

lemma run_eof:
  assumes "at_read p l"
  shows "\<exists>l2. call l2 = Sys_exit 0 \<and> mrun N fds 6 (l, [], evs) = Some (l2, [], evs)"
  using assms
  by (intro exI [of _ "l\<lparr>pc := L109_exit\<rparr>"])
     (simp add: at_read_def mstep_def call_def resume_def close_pipe_if_valid_def eval_nat_numeral)

lemma loop_written:
  assumes "at_read p l" "PIPE_WRITE (cursor l) \<noteq> PIPE_INVALID"
  shows "\<exists>l2 k. k \<le> 2 * length xs + 6 \<and> call l2 = Sys_exit 0
     \<and> mrun N fds k (l, xs, evs)
        = Some (l2, [], evs @ map (Written (PIPE_WRITE (cursor l))) (filter (\<lambda>v. v mod p \<noteq> 0) xs))"
  using assms
proof (induction xs arbitrary: l evs)
  case Nil
  from run_eof [OF Nil(1), of N fds evs] show ?case by auto
next
  case (Cons v vs)
  show ?case
  proof (cases "v mod p = 0")
    case True
    from run_skip [OF Cons.prems(1) True, of N fds vs evs] obtain l1 where
      l1: "at_read p l1" "cursor l1 = cursor l"
        "\<And>k. mrun N fds (Suc k) (l, v # vs, evs) = mrun N fds k (l1, vs, evs)" by blast
    from Cons.IH [of l1 evs] l1(1,2) Cons.prems(2) obtain l2 k where
      "k \<le> 2 * length vs + 6" "call l2 = Sys_exit 0"
      "mrun N fds k (l1, vs, evs)
        = Some (l2, [], evs @ map (Written (PIPE_WRITE (cursor l))) (filter (\<lambda>v. v mod p \<noteq> 0) vs))"
      by auto
    with l1(3) [of k] True show ?thesis
      by (intro exI [of _ l2] exI [of _ "Suc k"]) simp
  next
    case False
    from run_write [OF Cons.prems(1) False Cons.prems(2), of N fds vs evs] obtain l1 where
      l1: "at_read p l1" "cursor l1 = cursor l"
        "\<And>k. mrun N fds (Suc (Suc k)) (l, v # vs, evs)
            = mrun N fds k (l1, vs, evs @ [Written (PIPE_WRITE (cursor l)) v])" by blast
    from Cons.IH [of l1 "evs @ [Written (PIPE_WRITE (cursor l)) v]"] l1(1,2) Cons.prems(2)
    obtain l2 k where
      "k \<le> 2 * length vs + 6" "call l2 = Sys_exit 0"
      "mrun N fds k (l1, vs, evs @ [Written (PIPE_WRITE (cursor l)) v])
        = Some (l2, [], (evs @ [Written (PIPE_WRITE (cursor l)) v])
             @ map (Written (PIPE_WRITE (cursor l))) (filter (\<lambda>v. v mod p \<noteq> 0) vs))"
      by auto
    with l1(3) [of k] False show ?thesis
      by (intro exI [of _ l2] exI [of _ "Suc (Suc k)"]) simp
  qed
qed

lemma loop_forwards:
  assumes "at_read p l" "PIPE_WRITE (cursor l) = PIPE_INVALID"
  shows "\<exists>l2 k. k \<le> 3 * length xs + 6 \<and> call l2 = Sys_exit 0
     \<and> mrun N fds k (l, xs, evs)
        = Some (l2, [], evs @ forwards (int (snd fds)) (filter (\<lambda>v. v mod p \<noteq> 0) xs))"
  using assms
proof (induction xs arbitrary: l evs)
  case Nil
  from run_eof [OF Nil(1), of N fds evs] show ?case by auto
next
  case (Cons v vs)
  show ?case
  proof (cases "v mod p = 0")
    case True
    from run_skip [OF Cons.prems(1) True, of N fds vs evs] obtain l1 where
      l1: "at_read p l1" "cursor l1 = cursor l"
        "\<And>k. mrun N fds (Suc k) (l, v # vs, evs) = mrun N fds k (l1, vs, evs)" by blast
    from Cons.IH [of l1 evs] l1(1,2) Cons.prems(2) obtain l2 k where
      "k \<le> 3 * length vs + 6" "call l2 = Sys_exit 0"
      "mrun N fds k (l1, vs, evs)
        = Some (l2, [], evs @ forwards (int (snd fds)) (filter (\<lambda>v. v mod p \<noteq> 0) vs))"
      by auto
    with l1(3) [of k] True show ?thesis
      by (intro exI [of _ l2] exI [of _ "Suc k"]) simp
  next
    case False
    from run_spawn [OF Cons.prems(1) False Cons.prems(2), of fds N vs evs] obtain l1 where
      l1: "at_read p l1" "cursor l1 = (int (fst fds), int (snd fds))"
        "\<And>k. mrun N fds (Suc (Suc (Suc k))) (l, v # vs, evs)
            = mrun N fds k (l1, vs, evs @ [Spawned v])" by blast
    from l1(2) have w: "PIPE_WRITE (cursor l1) \<noteq> PIPE_INVALID" "PIPE_WRITE (cursor l1) = int (snd fds)"
      by (simp_all add: PIPE_WRITE_def PIPE_INVALID_def)
    have "\<exists>l2 k. k \<le> 2 * length vs + 6 \<and> call l2 = Sys_exit 0
       \<and> mrun N fds k (l1, vs, evs @ [Spawned v])
          = Some (l2, [], (evs @ [Spawned v])
               @ map (Written (PIPE_WRITE (cursor l1))) (filter (\<lambda>v. v mod p \<noteq> 0) vs))"
      by (rule loop_written [OF l1(1) w(1)])
    with w(2) obtain l2 k where
      "k \<le> 2 * length vs + 6" "call l2 = Sys_exit 0"
      "mrun N fds k (l1, vs, evs @ [Spawned v])
        = Some (l2, [], (evs @ [Spawned v])
             @ map (Written (int (snd fds))) (filter (\<lambda>v. v mod p \<noteq> 0) vs))"
      by auto
    with l1(3) [of k] False show ?thesis
      by (intro exI [of _ l2] exI [of _ "Suc (Suc (Suc k))"]) simp
  qed
qed

lemma stage_start:
  assumes "pc l0 = L78_fork"
  shows "\<exists>l1. at_read (val l0) l1 \<and> PIPE_WRITE (cursor l1) = PIPE_INVALID
     \<and> (\<forall>k. mrun N fds (Suc (Suc k)) (resume N l0 0 (0, 0), xs, [])
            = mrun N fds k (l1, xs, [Printed (Prime_line (val l0))]))"
  using assms
  by (intro exI [of _ "l0\<lparr>role := Stage, n := val l0, pipe_left := cursor l0,
        cursor := (PIPE_INVALID, PIPE_INVALID), val := 0, pc := L91_read\<rparr>"])
     (simp add: at_read_def mstep_def call_def resume_def close_pipe_if_valid_def
        print_prime_def PIPE_WRITE_def)

text \<open>
  C3.  A Stage is what \<^verbatim>\<open>fork\<close> at line 78 returns 0 to; its prime \<open>p\<close> is the value in
  flight there (nonzero, so that \<^verbatim>\<open>%\<close> is defined).  Run alone on any finite upstream
  input \<open>xs\<close>, with enough fuel (three steps for each input and eight more), the Stage
  reaches its \<^verbatim>\<open>exit(0)\<close> with the whole input consumed, and its events are: first the line
  \<^verbatim>\<open>prime p\<close>, then, for the received values not divisible by \<open>p\<close>, in the order received,
  a spawn for the first and a write to the new pipe for each of the others.  So the
  values handed downstream are exactly the received values not divisible by \<open>p\<close>, in order.
\<close>

theorem stage_filters:
  assumes "pc l0 = L78_fork" and "val l0 \<noteq> 0"
  shows "\<exists>l2 evs. mrun N fds (3 * length xs + 8) (resume N l0 0 (0, 0), xs, []) = Some (l2, [], evs)
     \<and> call l2 = Sys_exit 0
     \<and> evs = Printed (Prime_line (val l0))
             # forwards (int (snd fds)) (filter (\<lambda>v. v mod val l0 \<noteq> 0) xs)
     \<and> sent evs = filter (\<lambda>v. v mod val l0 \<noteq> 0) xs"
proof -
  from stage_start [OF assms(1), of N fds xs] obtain l1 where
    l1: "at_read (val l0) l1" "PIPE_WRITE (cursor l1) = PIPE_INVALID"
      "\<And>k. mrun N fds (Suc (Suc k)) (resume N l0 0 (0, 0), xs, [])
            = mrun N fds k (l1, xs, [Printed (Prime_line (val l0))])" by blast
  have "\<exists>l2 k. k \<le> 3 * length xs + 6 \<and> call l2 = Sys_exit 0
     \<and> mrun N fds k (l1, xs, [Printed (Prime_line (val l0))])
        = Some (l2, [], [Printed (Prime_line (val l0))]
             @ forwards (int (snd fds)) (filter (\<lambda>v. v mod val l0 \<noteq> 0) xs))"
    by (rule loop_forwards [OF l1(1,2)])
  then obtain l2 k where k: "k \<le> 3 * length xs + 6" "call l2 = Sys_exit 0"
    "mrun N fds k (l1, xs, [Printed (Prime_line (val l0))])
        = Some (l2, [], [Printed (Prime_line (val l0))]
             @ forwards (int (snd fds)) (filter (\<lambda>v. v mod val l0 \<noteq> 0) xs))"
    by blast
  from k(3) l1(3) [of k]
  have "mrun N fds (Suc (Suc k)) (resume N l0 0 (0, 0), xs, [])
        = Some (l2, [], Printed (Prime_line (val l0))
             # forwards (int (snd fds)) (filter (\<lambda>v. v mod val l0 \<noteq> 0) xs))" by simp
  from mrun_mono [OF this, of "3 * length xs + 6 - k"] k(1)
  have "mrun N fds (3 * length xs + 8) (resume N l0 0 (0, 0), xs, [])
        = Some (l2, [], Printed (Prime_line (val l0))
             # forwards (int (snd fds)) (filter (\<lambda>v. v mod val l0 \<noteq> 0) xs))"
    by (simp add: add.commute)
  with k(2) show ?thesis by simp
qed

theorem stage_filters_witness:
  "pc parent_3 = L78_fork \<and> val parent_3 = 3
   \<and> (\<exists>l2. mrun 35 (5, 6) 29 (resume 35 parent_3 0 (0, 0), [5, 7, 9, 11, 13, 15, 17], [])
        = Some (l2, [], [Printed (Prime_line 3), Spawned 5, Written 6 7, Written 6 11,
                         Written 6 13, Written 6 17]))"
proof -
  have e: "pc parent_3 = L78_fork" "val parent_3 = 3" by (simp_all add: parent_3_def)
  from stage_filters [of parent_3 35 "(5, 6)" "[5, 7, 9, 11, 13, 15, 17]"] e
  show ?thesis by auto
qed

end
